theory Spec2Isabelle
  imports Main "HOL-Library.Word"
begin

section \<open>Identifier sanitiser (embed.go, sanitise)\<close>

text \<open>
  Go strings are byte sequences; a \<^typ>\<open>string\<close> is a list of 8-bit characters, so a Go
  string is modelled as a \<^typ>\<open>string\<close> and a rune (code point) as a natural number.
  The functions of Go's standard library that \<^verbatim>\<open>sanitise\<close> calls are modelled from
  their documented behaviour on a Unix system (path separator \<^verbatim>\<open>/\<close>, no volume names).
\<close>

subsection \<open>filepath.Base\<close>

text \<open>
  \<^verbatim>\<open>filepath.Base\<close>: the empty path gives \<^verbatim>\<open>.\<close>; trailing separators are stripped;
  the last element after the last separator is taken; a path of separators only gives
  \<^verbatim>\<open>/\<close>.
\<close>

definition IsPathSeparator :: "char \<Rightarrow> bool" where
  "IsPathSeparator c = (c = CHR ''/'')"

definition strip_trailing :: "string \<Rightarrow> string" where
  "strip_trailing path = rev (dropWhile IsPathSeparator (rev path))"

definition last_element :: "string \<Rightarrow> string" where
  "last_element path = rev (takeWhile (\<lambda>c. \<not> IsPathSeparator c) (rev path))"

definition Base :: "string \<Rightarrow> string" where
  "Base path =
     (if path = [] then ''.''
      else let p = last_element (strip_trailing path)
           in if p = [] then ''/'' else p)"

subsection \<open>utf8.DecodeRuneInString and the rune encoder\<close>

definition RuneError :: nat where
  "RuneError = 0xFFFD"

text \<open>
  \<^verbatim>\<open>utf8.DecodeRuneInString\<close> returns the first rune of the string and its width in
  bytes: \<^verbatim>\<open>(RuneError, 0)\<close> for the empty string and \<^verbatim>\<open>(RuneError, 1)\<close> for an
  encoding that is invalid, over-long, a surrogate or beyond U+10FFFF. The masks and
  shifts of the Go code are written as \<open>mod\<close> and multiplication: the bit fields do not
  overlap.
\<close>

fun DecodeRuneInString :: "string \<Rightarrow> nat \<times> nat" where
  "DecodeRuneInString [] = (RuneError, 0)"
| "DecodeRuneInString (c # cs) =
     (let s0 = (of_char c :: nat) in
      if s0 < 0x80 then (s0, 1)
      else if s0 < 0xC2 \<or> 0xF4 < s0 then (RuneError, 1)
      else
        let sz = (if s0 < 0xE0 then 2 else if s0 < 0xF0 then 3 else (4::nat));
            lo = (if s0 = 0xE0 then 0xA0 else if s0 = 0xF0 then 0x90 else (0x80::nat));
            hi = (if s0 = 0xED then 0x9F else if s0 = 0xF4 then 0x8F else (0xBF::nat))
        in if length (c # cs) < sz then (RuneError, 1)
           else
             let s1 = (of_char (cs ! 0) :: nat) in
             if s1 < lo \<or> hi < s1 then (RuneError, 1)
             else if sz \<le> 2 then ((s0 mod 32) * 64 + s1 mod 64, 2)
             else
               let s2 = (of_char (cs ! 1) :: nat) in
               if s2 < 0x80 \<or> 0xBF < s2 then (RuneError, 1)
               else if sz \<le> 3 then ((s0 mod 16) * 4096 + (s1 mod 64) * 64 + s2 mod 64, 3)
               else
                 let s3 = (of_char (cs ! 2) :: nat) in
                 if s3 < 0x80 \<or> 0xBF < s3 then (RuneError, 1)
                 else ((s0 mod 8) * 262144 + (s1 mod 64) * 4096 + (s2 mod 64) * 64
                         + s3 mod 64, 4))"

text \<open>
  \<^verbatim>\<open>bytes.Buffer.WriteRune\<close> appends the UTF-8 encoding of the rune
  (\<^verbatim>\<open>utf8.AppendRune\<close>); a surrogate or a value beyond U+10FFFF is written as
  \<^verbatim>\<open>RuneError\<close>.
\<close>

definition encode3 :: "nat \<Rightarrow> string" where
  "encode3 r = [char_of (0xE0 + r div 4096), char_of (0x80 + (r div 64) mod 64),
                char_of (0x80 + r mod 64)]"

definition EncodeRune :: "nat \<Rightarrow> string" where
  "EncodeRune r =
     (if r \<le> 0x7F then [char_of r]
      else if r \<le> 0x7FF then [char_of (0xC0 + r div 64), char_of (0x80 + r mod 64)]
      else if 0x10FFFF < r \<or> (0xD800 \<le> r \<and> r \<le> 0xDFFF) then encode3 RuneError
      else if r \<le> 0xFFFF then encode3 r
      else [char_of (0xF0 + r div 262144), char_of (0x80 + (r div 4096) mod 64),
            char_of (0x80 + (r div 64) mod 64), char_of (0x80 + r mod 64)])"

subsection \<open>unicode.IsLetter, unicode.IsNumber and unicode.IsDigit\<close>

text \<open>
  The functions answer from a fixed property table for the code points up to U+00FF and
  from the Unicode range tables \<^verbatim>\<open>unicode.Letter\<close>, \<^verbatim>\<open>unicode.Number\<close> and
  \<^verbatim>\<open>unicode.Digit\<close> beyond. The Latin-1 part is written out; the range tables are not
  part of the repository and are parameters of the model. \<^verbatim>\<open>sanitise\<close> calls
  \<^verbatim>\<open>unicode.IsLetter\<close> and \<^verbatim>\<open>unicode.IsNumber\<close>; \<^verbatim>\<open>unicode.IsDigit\<close>, the decimal
  digits, is what Go allows in an identifier after its first letter.
\<close>

record tables =
  Letter :: "nat \<Rightarrow> bool"
  Number :: "nat \<Rightarrow> bool"
  Digit :: "nat \<Rightarrow> bool"

definition latin1_letter :: "nat \<Rightarrow> bool" where
  "latin1_letter r =
     ((0x41 \<le> r \<and> r \<le> 0x5A) \<or> (0x61 \<le> r \<and> r \<le> 0x7A) \<or> r = 0xAA \<or> r = 0xB5
       \<or> r = 0xBA \<or> (0xC0 \<le> r \<and> r \<le> 0xD6) \<or> (0xD8 \<le> r \<and> r \<le> 0xF6)
       \<or> (0xF8 \<le> r \<and> r \<le> 0xFF))"

definition latin1_number :: "nat \<Rightarrow> bool" where
  "latin1_number r =
     ((0x30 \<le> r \<and> r \<le> 0x39) \<or> r = 0xB2 \<or> r = 0xB3 \<or> r = 0xB9
       \<or> (0xBC \<le> r \<and> r \<le> 0xBE))"

definition IsLetter :: "tables \<Rightarrow> nat \<Rightarrow> bool" where
  "IsLetter T r = (if r \<le> 0xFF then latin1_letter r else Letter T r)"

definition IsNumber :: "tables \<Rightarrow> nat \<Rightarrow> bool" where
  "IsNumber T r = (if r \<le> 0xFF then latin1_number r else Number T r)"

definition IsDigit :: "tables \<Rightarrow> nat \<Rightarrow> bool" where
  "IsDigit T r = (if r \<le> 0xFF then 0x30 \<le> r \<and> r \<le> 0x39 else Digit T r)"

subsection \<open>sanitise\<close>

text \<open>
  The loop of \<^verbatim>\<open>sanitise\<close>: \<open>first\<close> and \<open>buf\<close> are the local variables of the Go
  function, \<open>name\<close> is the part of the base name still to be scanned.
\<close>

function sanitise_loop :: "tables \<Rightarrow> bool \<Rightarrow> string \<Rightarrow> string \<Rightarrow> string" where
  "sanitise_loop T first buf name =
     (if 0 < length name then
        (case DecodeRuneInString name of
           (r, n) \<Rightarrow>
             if IsLetter T r \<or> (\<not> first \<and> IsNumber T r)
             then sanitise_loop T False (buf @ EncodeRune r) (drop n name)
             else sanitise_loop T first (buf @ ''_'') (drop n name))
      else buf)"
  by pat_completeness auto

lemma DecodeRuneInString_width:
  "name \<noteq> [] \<Longrightarrow> (r, n) = DecodeRuneInString name \<Longrightarrow> length name - n < length name"
  by (cases name) (auto simp: Let_def split: if_splits)

termination sanitise_loop
  by (relation "measure (\<lambda>(T, first, buf, name). length name)")
     (auto intro: DecodeRuneInString_width)

definition sanitise :: "tables \<Rightarrow> string \<Rightarrow> string" where
  "sanitise T name =
     (let buf = sanitise_loop T True [] (Base name)
      in if length buf = 0 then ''_'' else buf)"

section \<open>Stream encoder (embed.go, Embed)\<close>

subsection \<open>Errors, the caller's writer and the caller's reader\<close>

type_synonym byte = "8 word"

text \<open>
  The error values that \<^verbatim>\<open>Embed\<close> tells apart are \<^verbatim>\<open>io.EOF\<close> and
  \<^verbatim>\<open>io.ErrUnexpectedEOF\<close>; every other error value is an \<open>IOError\<close> with a tag.
  A nil error is \<open>None\<close>.
\<close>

datatype error = EOF | ErrUnexpectedEOF | IOError nat

text \<open>
  The writer \<^verbatim>\<open>dst\<close> of the caller: it records what each \<^verbatim>\<open>Write\<close> call accepted
  and answers the calls from a script, one outcome per call; when the script is used up
  every later call succeeds. \<open>Fail k e\<close> accepts \<open>k\<close> bytes and reports \<open>e\<close>. As
  \<^verbatim>\<open>io.Writer\<close> requires, a call that reports no error has accepted all its bytes.
\<close>

datatype outcome = Ok | Fail nat error

record sink =
  accepted :: "string list"
  script :: "outcome list"

definition sink_Write :: "sink \<Rightarrow> string \<Rightarrow> sink \<times> error option" where
  "sink_Write s p =
     (case script s of
        [] \<Rightarrow> (s\<lparr>accepted := accepted s @ [p]\<rparr>, None)
      | Ok # rest \<Rightarrow> (s\<lparr>accepted := accepted s @ [p], script := rest\<rparr>, None)
      | Fail k e # rest \<Rightarrow> (s\<lparr>accepted := accepted s @ [take k p], script := rest\<rparr>, Some e))"

fun write_all :: "sink \<Rightarrow> string list \<Rightarrow> sink \<times> error option" where
  "write_all s [] = (s, None)"
| "write_all s (p # ps) =
     (case sink_Write s p of
        (s', Some e) \<Rightarrow> (s', Some e)
      | (s', None) \<Rightarrow> write_all s' ps)"

text \<open>
  The reader \<^verbatim>\<open>src\<close> of the caller delivers the bytes \<open>pending\<close> and then reports
  \<open>final\<close> (\<open>EOF\<close> for a file read to its end) on every later call. \<open>reads\<close> counts the
  calls of \<^verbatim>\<open>io.ReadFull\<close>.

  \<^verbatim>\<open>io.ReadFull(src, buf)\<close> fills the buffer, or returns the bytes it got with the
  reader's error, where \<^verbatim>\<open>io.EOF\<close> after at least one byte becomes
  \<^verbatim>\<open>io.ErrUnexpectedEOF\<close>.
\<close>

record source =
  pending :: "byte list"
  final :: error
  reads :: nat

definition ReadFull :: "source \<Rightarrow> nat \<Rightarrow> (byte list \<times> error option) \<times> source" where
  "ReadFull src n =
     (if n \<le> length (pending src)
      then ((take n (pending src), None),
            src\<lparr>pending := drop n (pending src), reads := reads src + 1\<rparr>)
      else ((pending src,
             Some (if 0 < length (pending src) \<and> final src = EOF then ErrUnexpectedEOF
                   else final src)),
            src\<lparr>pending := [], reads := reads src + 1\<rparr>))"

subsection \<open>The gzip writer, the hash and the chain of writers\<close>

text \<open>
  \<^verbatim>\<open>compress/gzip\<close> is not part of the repository. Its compressor is a parameter: a
  state, the writes to the underlying writer that a \<^verbatim>\<open>Write\<close> of some bytes causes, and
  the writes that \<^verbatim>\<open>Close\<close> causes. The writer around it is \<^verbatim>\<open>gzip.Writer\<close>: its error
  is sticky, and \<^verbatim>\<open>Close\<close> writes only once. \<open>closes\<close> counts the calls of
  \<^verbatim>\<open>Close\<close>.
\<close>

record 'z compressor =
  zinit :: 'z
  zwrite :: "'z \<Rightarrow> string \<Rightarrow> 'z \<times> string list"
  zclose :: "'z \<Rightarrow> string list"

record 'z gzip_writer =
  zstate :: 'z
  zerr :: "error option"
  zclosed :: bool
  closes :: nat

definition gzip_Write ::
  "'z compressor \<Rightarrow> 'z gzip_writer \<Rightarrow> sink \<Rightarrow> string \<Rightarrow> ('z gzip_writer \<times> sink) \<times> error option"
where
  "gzip_Write C g s p =
     (case zerr g of
        Some e \<Rightarrow> ((g, s), Some e)
      | None \<Rightarrow>
          (case zwrite C (zstate g) p of
             (z', outs) \<Rightarrow>
               (case write_all s outs of
                  (s', r) \<Rightarrow> ((g\<lparr>zstate := z', zerr := r\<rparr>, s'), r))))"

definition gzip_Close ::
  "'z compressor \<Rightarrow> 'z gzip_writer \<Rightarrow> sink \<Rightarrow> ('z gzip_writer \<times> sink) \<times> error option"
where
  "gzip_Close C g0 s =
     (let g = g0\<lparr>closes := closes g0 + 1\<rparr> in
      case zerr g of
        Some e \<Rightarrow> ((g, s), Some e)
      | None \<Rightarrow>
          if zclosed g then ((g, s), None)
          else (case write_all s (zclose C (zstate g)) of
                  (s', r) \<Rightarrow> ((g\<lparr>zclosed := True, zerr := r\<rparr>, s'), r)))"

text \<open>
  The external library as \<^verbatim>\<open>Embed\<close> uses it: the Unicode tables, the SHA1 digest of a
  byte string (\<^verbatim>\<open>sha1.New\<close>, \<^verbatim>\<open>Write\<close>, \<^verbatim>\<open>Sum\<close>) and the compressor.
\<close>

record 'z library =
  unicode :: tables
  sha1_Sum :: "string \<Rightarrow> byte list"
  gzip :: "'z compressor"

text \<open>The flags \<^verbatim>\<open>-gzip\<close> and \<^verbatim>\<open>-sha1\<close> (the globals \<^verbatim>\<open>compress\<close> and \<^verbatim>\<open>sha\<close>).\<close>

record flags =
  compress :: bool
  sha :: bool

text \<open>
  The value of the variable \<^verbatim>\<open>dst\<close> inside \<^verbatim>\<open>Embed\<close>: the caller's writer, the gzip
  writer around it when there is one, and the bytes the hasher has been given when there
  is one. \<open>dst_Write\<close> is \<^verbatim>\<open>dst.Write\<close>: the gzip writer or the caller's writer
  first and, as \<^verbatim>\<open>io.MultiWriter\<close> does, the hasher only when that write succeeded.
\<close>

record 'z chain =
  out :: sink
  gz :: "'z gzip_writer option"
  hasher :: "string option"

definition inner_Write :: "'z library \<Rightarrow> 'z chain \<Rightarrow> string \<Rightarrow> 'z chain \<times> error option" where
  "inner_Write L w p =
     (case gz w of
        None \<Rightarrow> (case sink_Write (out w) p of (s, r) \<Rightarrow> (w\<lparr>out := s\<rparr>, r))
      | Some g \<Rightarrow>
          (case gzip_Write (gzip L) g (out w) p of
             ((g', s), r) \<Rightarrow> (w\<lparr>out := s, gz := Some g'\<rparr>, r)))"

definition dst_Write :: "'z library \<Rightarrow> 'z chain \<Rightarrow> string \<Rightarrow> 'z chain \<times> error option" where
  "dst_Write L w p =
     (case inner_Write L w p of
        (w', Some e) \<Rightarrow> (w', Some e)
      | (w', None) \<Rightarrow>
          (case hasher w' of
             None \<Rightarrow> (w', None)
           | Some h \<Rightarrow> (w'\<lparr>hasher := Some (h @ p)\<rparr>, None)))"

definition wc_Close :: "'z library \<Rightarrow> 'z chain \<Rightarrow> 'z chain \<times> error option" where
  "wc_Close L w =
     (case gz w of
        None \<Rightarrow> (w, None)
      | Some g \<Rightarrow>
          (case gzip_Close (gzip L) g (out w) of
             ((g', s), r) \<Rightarrow> (w\<lparr>out := s, gz := Some g'\<rparr>, r)))"

subsection \<open>The text that Embed formats\<close>

definition NL :: char where
  "NL = CHR 0x0A"

definition TAB :: char where
  "TAB = CHR 0x09"

definition hexdigit :: "nat \<Rightarrow> char" where
  "hexdigit d = ''0123456789abcdef'' ! d"

text \<open>\<^verbatim>\<open>fmt.Fprintf(&w, "0x%02x, ", b)\<close> for a byte \<open>b\<close>.\<close>

definition fmt_byte :: "byte \<Rightarrow> string" where
  "fmt_byte b = ''0x'' @ [hexdigit (unat b div 16), hexdigit (unat b mod 16)] @ '', ''"

text \<open>
  One line of a literal (lines 189 to 195 and 223 to 229): the entries of the chunk,
  without the last character of \<^verbatim>\<open>data\<close>, between a tab and a newline.
\<close>

definition fmt_line :: "byte list \<Rightarrow> string" where
  "fmt_line chunk =
     (let data = concat (map fmt_byte chunk)
      in [TAB] @ take (length data - 1) data @ [NL])"

definition data_header :: "string \<Rightarrow> string \<Rightarrow> string" where
  "data_header name sanitised =
     [NL] @ ''// '' @ name @ [NL] @ ''var '' @ sanitised @ '' = []byte{'' @ [NL]"

definition hash_header :: "string \<Rightarrow> string \<Rightarrow> string" where
  "hash_header name sanitised =
     [NL] @ ''// SHA1 hash of '' @ name @ [NL] @ ''var '' @ sanitised @ ''_SHA1 = []byte{''
       @ [NL]"

definition footer :: string where
  "footer = ''}'' @ [NL]"

subsection \<open>Embed\<close>

definition BUF_SIZE :: nat where
  "BUF_SIZE = 12"

text \<open>
  The read loop (lines 179 to 203). The result \<open>Some e\<close> is \<^verbatim>\<open>return err\<close> with the
  error \<open>e\<close>; \<open>None\<close> is a \<^verbatim>\<open>break\<close>.
\<close>

function read_loop ::
  "'z library \<Rightarrow> 'z chain \<Rightarrow> source \<Rightarrow> ('z chain \<times> source) \<times> error option"
where
  "read_loop L w src =
     (case ReadFull src BUF_SIZE of
        ((buf, err), src') \<Rightarrow>
          if err \<noteq> None \<and> err \<noteq> Some EOF \<and> err \<noteq> Some ErrUnexpectedEOF
          then ((w, src'), err)
          else if length buf = 0 then ((w, src'), None)
          else (case dst_Write L w (fmt_line buf) of
                  (w', Some e) \<Rightarrow> ((w', src'), Some e)
                | (w', None) \<Rightarrow>
                    if length buf \<noteq> BUF_SIZE then ((w', src'), None)
                    else read_loop L w' src'))"
  by pat_completeness auto

termination read_loop
  by (relation "measure (\<lambda>(L, w, src). length (pending src))")
     (auto simp: ReadFull_def BUF_SIZE_def split: if_splits)

text \<open>The loop over the digest \<^verbatim>\<open>sum\<close> (lines 217 to 235).\<close>

function hash_loop :: "'z library \<Rightarrow> 'z chain \<Rightarrow> byte list \<Rightarrow> 'z chain \<times> error option" where
  "hash_loop L w digest =
     (if 0 < length digest then
        (let n = (if BUF_SIZE < length digest then BUF_SIZE else length digest) in
         case dst_Write L w (fmt_line (take n digest)) of
           (w', Some e) \<Rightarrow> (w', Some e)
         | (w', None) \<Rightarrow> hash_loop L w' (drop n digest))
      else (w, None))"
  by pat_completeness auto

termination hash_loop
  by (relation "measure (\<lambda>(L, w, digest). length digest)") (auto simp: BUF_SIZE_def)

text \<open>
  Lines 162 to 243: the body of \<^verbatim>\<open>Embed\<close> after the gzip writer has been set up. The
  result is the state of the writers and of the reader, and the value of \<^verbatim>\<open>err\<close> at
  the \<^verbatim>\<open>return\<close>.
\<close>

definition Embed_body ::
  "'z library \<Rightarrow> flags \<Rightarrow> 'z chain \<Rightarrow> source \<Rightarrow> string \<Rightarrow> ('z chain \<times> source) \<times> error option"
where
  "Embed_body L F w0 src name =
     (let w1 = (if sha F then w0\<lparr>hasher := Some []\<rparr> else w0);
          sanitised = sanitise (unicode L) name
      in case dst_Write L w1 (data_header name sanitised) of
           (w2, Some e) \<Rightarrow> ((w2, src), Some e)
         | (w2, None) \<Rightarrow>
      (case read_loop L w2 src of
           ((w3, src'), Some e) \<Rightarrow> ((w3, src'), Some e)
         | ((w3, src'), None) \<Rightarrow>
      (case dst_Write L w3 footer of
           (w4, Some e) \<Rightarrow> ((w4, src'), Some e)
         | (w4, None) \<Rightarrow>
      (case hasher w4 of
           None \<Rightarrow> ((w4, src'), None)
         | Some h \<Rightarrow>
      (let digest = sha1_Sum L h
       in case dst_Write L w4 (hash_header name sanitised) of
           (w5, Some e) \<Rightarrow> ((w5, src'), Some e)
         | (w5, None) \<Rightarrow>
      (case hash_loop L w5 digest of
           (w6, Some e) \<Rightarrow> ((w6, src'), Some e)
         | (w6, None) \<Rightarrow>
      (case dst_Write L w6 footer of
           (w7, e) \<Rightarrow> ((w7, src'), e))))))))"

text \<open>
  \<^verbatim>\<open>Embed\<close>: with \<^verbatim>\<open>-gzip\<close> the gzip writer is put around \<^verbatim>\<open>dst\<close> (lines 145 to
  160; \<^verbatim>\<open>gzip.NewWriterLevel\<close> does not fail for \<^verbatim>\<open>gzip.BestCompression\<close>) and the
  deferred function closes it after the body, whatever the body returned, and replaces
  a nil error by the error of \<^verbatim>\<open>Close\<close>.
\<close>

definition Embed ::
  "'z library \<Rightarrow> flags \<Rightarrow> sink \<Rightarrow> source \<Rightarrow> string \<Rightarrow> ('z chain \<times> source) \<times> error option"
where
  "Embed L F dst src name =
     (if compress F then
        (let wc = \<lparr>zstate = zinit (gzip L), zerr = None, zclosed = False, closes = 0\<rparr>
         in case Embed_body L F \<lparr>out = dst, gz = Some wc, hasher = None\<rparr> src name of
              ((w, src'), err) \<Rightarrow>
                (case wc_Close L w of
                   (w', e) \<Rightarrow> ((w', src'), if err = None \<and> e \<noteq> None then e else err)))
      else Embed_body L F \<lparr>out = dst, gz = None, hasher = None\<rparr> src name)"

section \<open>Notions used to state the properties\<close>

subsection \<open>Code points of a string\<close>

text \<open>A code point that UTF-8 can encode: at most U+10FFFF and not a surrogate.\<close>

definition valid_rune :: "nat \<Rightarrow> bool" where
  "valid_rune r = (r \<le> 0x10FFFF \<and> \<not> (0xD800 \<le> r \<and> r \<le> 0xDFFF))"

text \<open>
  The code points of a string, as a Go \<^verbatim>\<open>range\<close> loop or the conversion
  \<^verbatim>\<open>[]rune(s)\<close> yields them: each byte that starts no valid encoding counts as one
  \<^verbatim>\<open>RuneError\<close>.
\<close>

function runes :: "string \<Rightarrow> nat list" where
  "runes s =
     (if s = [] then []
      else (case DecodeRuneInString s of (r, n) \<Rightarrow> r # runes (drop n s)))"
  by pat_completeness auto

termination runes
  by (relation "measure length") (auto intro: DecodeRuneInString_width)

definition underscore :: nat where
  "underscore = 0x5F"

text \<open>
  A Go identifier: a letter, then letters and decimal digits, where the underscore
  counts as a letter; the string is the UTF-8 encoding of its code points and is none of
  the reserved words of the language.
\<close>

definition reserved_words :: "string list" where
  "reserved_words =
     [''break'', ''default'', ''func'', ''interface'', ''select'',
      ''case'', ''defer'', ''go'', ''map'', ''struct'',
      ''chan'', ''else'', ''goto'', ''package'', ''switch'',
      ''const'', ''fallthrough'', ''if'', ''range'', ''type'',
      ''continue'', ''for'', ''import'', ''return'', ''var'']"

definition is_identifier :: "tables \<Rightarrow> string \<Rightarrow> bool" where
  "is_identifier T s =
     (concat (map EncodeRune (runes s)) = s
      \<and> (case runes s of
           [] \<Rightarrow> False
         | r # rs \<Rightarrow>
             (IsLetter T r \<or> r = underscore)
             \<and> list_all (\<lambda>r. IsLetter T r \<or> r = underscore \<or> IsDigit T r) rs)
      \<and> s \<notin> set reserved_words)"

text \<open>The loop of \<^verbatim>\<open>sanitise\<close> read on code points instead of bytes.\<close>

fun sanitise_runes :: "tables \<Rightarrow> bool \<Rightarrow> nat list \<Rightarrow> nat list" where
  "sanitise_runes T first [] = []"
| "sanitise_runes T first (r # rs) =
     (if IsLetter T r \<or> (\<not> first \<and> IsNumber T r) then r # sanitise_runes T False rs
      else underscore # sanitise_runes T first rs)"


subsection \<open>Chunks and the entries of a line\<close>

text \<open>The list cut into pieces of \<open>n\<close> elements, the last one possibly shorter.\<close>

function chunks :: "nat \<Rightarrow> 'a list \<Rightarrow> 'a list list" where
  "chunks n xs = (if n = 0 \<or> xs = [] then [] else take n xs # chunks n (drop n xs))"
  by pat_completeness auto

termination chunks
  by (relation "measure (\<lambda>(n, xs). length xs)") auto

text \<open>
  Reading a line of a literal back: a tab, the entries \<^verbatim>\<open>0xhh,\<close> with one space
  between two of them, and a newline.
\<close>

definition hexval :: "char \<Rightarrow> nat option" where
  "hexval c =
     (let n = (of_char c :: nat) in
      if 0x30 \<le> n \<and> n \<le> 0x39 then Some (n - 0x30)
      else if 0x61 \<le> n \<and> n \<le> 0x66 then Some (n - 0x61 + 10)
      else None)"

fun parse_entries :: "string \<Rightarrow> byte list option" where
  "parse_entries (c0 # cx # h # l # cm # rest) =
     (if c0 = CHR ''0'' \<and> cx = CHR ''x'' \<and> cm = CHR '','' then
        (case (hexval h, hexval l) of
           (Some a, Some b) \<Rightarrow>
             (case rest of
                [] \<Rightarrow> Some [of_nat (16 * a + b)]
              | sp # rest' \<Rightarrow>
                  if sp = CHR '' '' then map_option (Cons (of_nat (16 * a + b))) (parse_entries rest')
                  else None)
         | _ \<Rightarrow> None)
      else None)"
| "parse_entries _ = None"

definition parse_line :: "string \<Rightarrow> byte list option" where
  "parse_line s =
     (case s of
        [] \<Rightarrow> None
      | t # rest \<Rightarrow>
          if t = TAB \<and> rest \<noteq> [] \<and> last rest = NL then parse_entries (butlast rest)
          else None)"

subsection \<open>A library to run the model on concrete inputs\<close>

text \<open>
  Range tables with no letter, no number and no digit beyond U+00FF, a compressor that keeps what
  it is given and writes it, after a two-byte mark, when it is closed, and a digest that
  is the length of its input; a second compressor hands every write on at once and
  writes a mark when it is closed. They stand for no real library: they serve to evaluate
  the model where a closed term is needed.
\<close>

definition test_tables :: tables where
  "test_tables = \<lparr>Letter = (\<lambda>r. False), Number = (\<lambda>r. False), Digit = (\<lambda>r. False)\<rparr>"

definition test_compressor :: "string compressor" where
  "test_compressor =
     \<lparr>zinit = [], zwrite = (\<lambda>z p. (z @ p, [])), zclose = (\<lambda>z. [''GZ'' @ z])\<rparr>"

definition test_library :: "string library" where
  "test_library =
     \<lparr>unicode = test_tables, sha1_Sum = (\<lambda>s. [of_nat (length s)]), gzip = test_compressor\<rparr>"

definition stream_compressor :: "unit compressor" where
  "stream_compressor = \<lparr>zinit = (), zwrite = (\<lambda>z p. (z, [p])), zclose = (\<lambda>z. [''END''])\<rparr>"

definition stream_library :: "unit library" where
  "stream_library =
     \<lparr>unicode = test_tables, sha1_Sum = (\<lambda>s. [of_nat (length s)]), gzip = stream_compressor\<rparr>"

definition all_ok :: sink where
  "all_ok = \<lparr>accepted = [], script = []\<rparr>"

definition file_of :: "byte list \<Rightarrow> source" where
  "file_of bs = \<lparr>pending = bs, final = EOF, reads = 0\<rparr>"

subsection \<open>What Embed writes when no write fails\<close>

text \<open>
  A chain of writers on which no write fails: the script of the caller's writer is used
  up and the gzip writer holds no error. \<open>feed\<close> writes a list of strings to the
  chain, one \<^verbatim>\<open>Write\<close> each. A reader ends cleanly when its last answer is
  \<^verbatim>\<open>io.EOF\<close> or \<^verbatim>\<open>io.ErrUnexpectedEOF\<close>; \<open>end_of\<close> is the reader after the loop
  has read it to its end.
\<close>

definition ok_chain :: "'z chain \<Rightarrow> bool" where
  "ok_chain w = (script (out w) = [] \<and> (case gz w of None \<Rightarrow> True | Some g \<Rightarrow> zerr g = None))"

fun feed :: "'z library \<Rightarrow> 'z chain \<Rightarrow> string list \<Rightarrow> 'z chain" where
  "feed L w [] = w"
| "feed L w (p # ps) = feed L (fst (dst_Write L w p)) ps"


definition clean_end :: "source \<Rightarrow> bool" where
  "clean_end src = (final src = EOF \<or> final src = ErrUnexpectedEOF)"


text \<open>
  The writes of one run: the data block, and the hash block over the bytes \<open>hashed\<close>.
  \<open>gzip_stream\<close> is what the compressor hands to the writer under it when it is given
  a list of writes and then closed.
\<close>

definition data_block :: "tables \<Rightarrow> string \<Rightarrow> byte list \<Rightarrow> string list" where
  "data_block T name d =
     data_header name (sanitise T name) # map fmt_line (chunks BUF_SIZE d) @ [footer]"

definition hash_block :: "'z library \<Rightarrow> string \<Rightarrow> string \<Rightarrow> string list" where
  "hash_block L name hashed =
     hash_header name (sanitise (unicode L) name)
       # map fmt_line (chunks BUF_SIZE (sha1_Sum L hashed)) @ [footer]"

definition emitted :: "'z library \<Rightarrow> flags \<Rightarrow> string \<Rightarrow> byte list \<Rightarrow> string list" where
  "emitted L F name d =
     data_block (unicode L) name d
       @ (if sha F then hash_block L name (concat (data_block (unicode L) name d)) else [])"

fun gzip_feed :: "'z compressor \<Rightarrow> 'z \<Rightarrow> string list \<Rightarrow> 'z \<times> string list" where
  "gzip_feed C z [] = (z, [])"
| "gzip_feed C z (p # ps) =
     (case zwrite C z p of
        (z', outs) \<Rightarrow> (case gzip_feed C z' ps of (z'', outs') \<Rightarrow> (z'', outs @ outs')))"

definition gzip_stream :: "'z compressor \<Rightarrow> string list \<Rightarrow> string list" where
  "gzip_stream C ps = (case gzip_feed C (zinit C) ps of (z, outs) \<Rightarrow> outs @ zclose C z)"

definition end_of :: "source \<Rightarrow> source" where
  "end_of src = src\<lparr>pending := [], reads := reads src + length (pending src) div BUF_SIZE + 1\<rparr>"


text \<open>
  The number of \<^verbatim>\<open>Close\<close> calls the gzip writer of a chain has seen, and the part
  of \<^verbatim>\<open>Embed\<close> after the read loop (lines 205 to 243), without the reader.
\<close>

definition closes_of :: "'z chain \<Rightarrow> nat option" where
  "closes_of w = map_option closes (gz w)"

text \<open>
  Whether the gzip writer of a chain has been closed (\<^verbatim>\<open>z.closed\<close>), whether it holds
  no error, and what the body of \<^verbatim>\<open>Embed\<close> may do to it: between a chain \<open>w\<close> and a
  later chain \<open>w'\<close> reached with the result \<open>r\<close>, the writer has not been closed, and
  the error it holds, if any, is \<open>r\<close>.
\<close>

definition zclosed_of :: "'z chain \<Rightarrow> bool option" where
  "zclosed_of w = map_option zclosed (gz w)"

definition live :: "'z chain \<Rightarrow> bool" where
  "live w = (case gz w of None \<Rightarrow> False | Some g \<Rightarrow> zerr g = None)"

definition gz_after :: "'z chain \<Rightarrow> 'z chain \<Rightarrow> error option \<Rightarrow> bool" where
  "gz_after w w' r =
     (case gz w of
        None \<Rightarrow> False
      | Some g \<Rightarrow>
          (case gz w' of
             None \<Rightarrow> False
           | Some g' \<Rightarrow>
               zclosed g' = zclosed g \<and> closes g' = closes g
               \<and> (zerr g' = None \<or> zerr g' = r)))"


definition after_loop :: "'z library \<Rightarrow> string \<Rightarrow> 'z chain \<Rightarrow> 'z chain \<times> error option" where
  "after_loop L name w3 =
     (case dst_Write L w3 footer of
        (w4, Some e) \<Rightarrow> (w4, Some e)
      | (w4, None) \<Rightarrow>
          (case hasher w4 of
             None \<Rightarrow> (w4, None)
           | Some h \<Rightarrow>
               (case dst_Write L w4 (hash_header name (sanitise (unicode L) name)) of
                  (w5, Some e) \<Rightarrow> (w5, Some e)
                | (w5, None) \<Rightarrow>
                    (case hash_loop L w5 (sha1_Sum L h) of
                       (w6, Some e) \<Rightarrow> (w6, Some e)
                     | (w6, None) \<Rightarrow> dst_Write L w6 footer))))"


text \<open>
  An entry \<^verbatim>\<open>0xhh,\<close> and the entries of a chunk with one space between two of them.
\<close>

definition entry :: "byte \<Rightarrow> string" where
  "entry b = ''0x'' @ [hexdigit (unat b div 16), hexdigit (unat b mod 16)] @ '',''"

fun join_entries :: "byte list \<Rightarrow> string" where
  "join_entries [] = []"
| "join_entries [b] = entry b"
| "join_entries (b # bs) = entry b @ '' '' @ join_entries bs"


section \<open>Lemmas on UTF-8\<close>

lemma Decode_bytes2:
  assumes "0xC2 \<le> s0" "s0 < 0xE0" "0x80 \<le> s1" "s1 \<le> 0xBF"
  shows "DecodeRuneInString (char_of s0 # char_of s1 # rest) = ((s0 mod 32) * 64 + s1 mod 64, 2)"
proof -
  have e: "of_char (char_of s0 :: char) = s0" "of_char (char_of s1 :: char) = s1"
    using assms by simp_all
  show ?thesis
    apply (simp only: DecodeRuneInString.simps Let_def e)
    using assms apply simp
    done
qed

lemma Decode_bytes3:
  assumes "0xE0 \<le> s0" "s0 < 0xF0"
    and "(if s0 = 0xE0 then 0xA0 else 0x80) \<le> s1" "s1 \<le> (if s0 = 0xED then 0x9F else 0xBF)"
    and "0x80 \<le> s2" "s2 \<le> 0xBF"
  shows "DecodeRuneInString (char_of s0 # char_of s1 # char_of s2 # rest)
           = ((s0 mod 16) * 4096 + (s1 mod 64) * 64 + s2 mod 64, 3)"
proof -
  have "s1 < 256" using assms(4) by (simp split: if_splits)
  then have e: "of_char (char_of s0 :: char) = s0" "of_char (char_of s1 :: char) = s1"
     "of_char (char_of s2 :: char) = s2" using assms by simp_all
  show ?thesis
    apply (simp only: DecodeRuneInString.simps Let_def e)
    using assms apply (simp split: if_splits)
    done
qed

lemma Decode_bytes4:
  assumes "0xF0 \<le> s0" "s0 \<le> 0xF4"
    and "(if s0 = 0xF0 then 0x90 else 0x80) \<le> s1" "s1 \<le> (if s0 = 0xF4 then 0x8F else 0xBF)"
    and "0x80 \<le> s2" "s2 \<le> 0xBF" "0x80 \<le> s3" "s3 \<le> 0xBF"
  shows "DecodeRuneInString (char_of s0 # char_of s1 # char_of s2 # char_of s3 # rest)
           = ((s0 mod 8) * 262144 + (s1 mod 64) * 4096 + (s2 mod 64) * 64 + s3 mod 64, 4)"
proof -
  have "s1 < 256" using assms(4) by (simp split: if_splits)
  then have e: "of_char (char_of s0 :: char) = s0" "of_char (char_of s1 :: char) = s1"
     "of_char (char_of s2 :: char) = s2" "of_char (char_of s3 :: char) = s3" using assms by simp_all
  show ?thesis
    apply (simp only: DecodeRuneInString.simps Let_def e)
    using assms apply (simp split: if_splits)
    done
qed

lemma add_mod_drop: "a mod m = 0 \<Longrightarrow> x < m \<Longrightarrow> (a + x) mod m = (x::nat)"
  by (metis add_cancel_left_left mod_add_left_eq mod_less)

lemma digits2: "(q div 64) * (64 * d) + (q mod 64) * d = q * (d::nat)"
proof -
  have "(q div 64) * (64 * d) + (q mod 64) * d = (q div 64 * 64 + q mod 64) * d"
    by (simp only: add_mult_distrib mult.assoc)
  then show ?thesis by simp
qed

lemma split2: "(r div 64) * 64 + r mod 64 = (r::nat)"
  by simp

lemma split3: "(r div 4096) * 4096 + ((r div 64) mod 64) * 64 + r mod 64 = (r::nat)"
proof -
  have "r div 4096 = r div 64 div 64" by (simp add: div_mult2_eq)
  then have "(r div 4096) * 4096 + ((r div 64) mod 64) * 64 = (r div 64) * 64"
    using digits2 [of "r div 64" 64] by simp
  then show ?thesis by simp
qed

lemma split4:
  "(r div 262144) * 262144 + ((r div 4096) mod 64) * 4096 + ((r div 64) mod 64) * 64 + r mod 64
     = (r::nat)"
proof -
  have "r div 262144 = r div 4096 div 64" by (simp add: div_mult2_eq)
  then have "(r div 262144) * 262144 + ((r div 4096) mod 64) * 4096 = (r div 4096) * 4096"
    using digits2 [of "r div 4096" 4096] by simp
  then show ?thesis using split3 [of r] by simp
qed

lemma mod_window:
  assumes "k * n \<le> q" "q < k * n + m" "m \<le> n"
  shows "q mod n < (m::nat)"
proof -
  have "(q - k * n + k * n) mod n = (q - k * n) mod n" by (rule mod_mult_self1)
  then have "q mod n = (q - k * n) mod n" using assms(1) by simp
  also have "\<dots> = q - k * n" using assms by simp
  finally show ?thesis using assms by simp
qed

lemma cont_byte: "0x80 \<le> 0x80 + (x::nat) mod 64" "0x80 + (x::nat) mod 64 \<le> 0xBF"
    "(0x80 + x mod 64) mod 64 = x mod 64"
proof -
  have "x mod 64 < 64" by simp
  then show "0x80 + x mod 64 \<le> 0xBF" by linarith
  show "(0x80 + x mod 64) mod 64 = x mod 64" by (rule add_mod_drop) simp_all
qed simp

lemma decode_encode2:
  assumes "0x80 \<le> r" "r \<le> 0x7FF"
  shows "DecodeRuneInString ([char_of (0xC0 + r div 64), char_of (0x80 + r mod 64)] @ rest) = (r, 2)"
proof -
  have "r div 64 \<le> 0x7FF div 64" using assms(2) by (rule div_le_mono)
  then have u: "r div 64 < 32" by simp
  have "0x80 div 64 \<le> r div 64" using assms(1) by (rule div_le_mono)
  then have l: "2 \<le> r div 64" by simp
  have m: "(0xC0 + r div 64) mod 32 = r div 64" using u by (intro add_mod_drop) simp_all
  have "DecodeRuneInString (char_of (0xC0 + r div 64) # char_of (0x80 + r mod 64) # rest)
          = (((0xC0 + r div 64) mod 32) * 64 + (0x80 + r mod 64) mod 64, 2)"
    by (rule Decode_bytes2) (use u l cont_byte in simp_all)
  then show ?thesis by (simp add: m cont_byte)
qed

lemma decode_encode3:
  assumes "0x800 \<le> r" "r \<le> 0xFFFF" "\<not> (0xD800 \<le> r \<and> r \<le> 0xDFFF)"
  shows "DecodeRuneInString (encode3 r @ rest) = (r, 3)"
proof -
  define s0 where "s0 = 0xE0 + r div 4096"
  define s1 where "s1 = 0x80 + (r div 64) mod 64"
  define s2 where "s2 = 0x80 + r mod 64"
  have "r div 4096 \<le> 0xFFFF div 4096" using assms(2) by (rule div_le_mono)
  then have u: "r div 4096 < 16" by simp
  have lo: "0xA0 \<le> s1" if "s0 = 0xE0"
  proof -
    have "r div 4096 = 0" using that by (simp add: s0_def)
    then have "r < 4096" by (simp add: div_eq_0_iff)
    then have "r div 64 < 64" by simp
    moreover have "0x800 div 64 \<le> r div 64" using assms(1) by (rule div_le_mono)
    ultimately show ?thesis by (simp add: s1_def)
  qed
  have hi: "s1 \<le> 0x9F" if "s0 = 0xED"
  proof -
    have d: "r div 4096 = 13" using that by (simp add: s0_def)
    then have "13 * 4096 \<le> r" by simp
    then have "(13 * 4096) div 64 \<le> r div 64" by (rule div_le_mono)
    then have a: "13 * 64 \<le> r div 64" by simp
    have "r div 4096 < 14" using d by simp
    then have "r < 14 * 4096" by (simp only: div_less_iff_less_mult [of 4096 r 14, simplified])
    then have "r < 0xD800" using assms(3) by simp
    then have "r div 64 < 13 * 64 + 32" by simp
    with a have "(r div 64) mod 64 < 32" by (rule mod_window) simp
    then show ?thesis by (simp add: s1_def)
  qed
  have m0: "s0 mod 16 = r div 4096" unfolding s0_def using u by (intro add_mod_drop) simp_all
  have "DecodeRuneInString (char_of s0 # char_of s1 # char_of s2 # rest)
           = ((s0 mod 16) * 4096 + (s1 mod 64) * 64 + s2 mod 64, 3)"
  proof (rule Decode_bytes3)
    show "0xE0 \<le> s0" "s0 < 0xF0" using u by (simp_all add: s0_def)
    show "(if s0 = 0xE0 then 0xA0 else 0x80) \<le> s1" using lo by (simp add: s1_def)
    show "s1 \<le> (if s0 = 0xED then 0x9F else 0xBF)" using hi cont_byte(2) by (simp add: s1_def)
    show "0x80 \<le> s2" "s2 \<le> 0xBF" using cont_byte by (simp_all add: s2_def)
  qed
  then have "DecodeRuneInString (char_of s0 # char_of s1 # char_of s2 # rest) = (r, 3)"
    by (simp add: m0 s1_def s2_def cont_byte split3)
  then show ?thesis by (simp add: encode3_def s0_def s1_def s2_def)
qed

lemma lead_mod:
  "0xC0 \<le> s \<Longrightarrow> s < 0xE0 \<Longrightarrow> s mod 32 = s - (0xC0::nat)"
  "0xE0 \<le> s \<Longrightarrow> s < 0xF0 \<Longrightarrow> s mod 16 = s - (0xE0::nat)"
  "0xF0 \<le> s \<Longrightarrow> s < 0xF8 \<Longrightarrow> s mod 8 = s - (0xF0::nat)"
  "0x80 \<le> s \<Longrightarrow> s \<le> 0xBF \<Longrightarrow> s mod 64 = s - (0x80::nat)"
proof -
  show "s mod 32 = s - (0xC0::nat)" if "0xC0 \<le> s" "s < 0xE0"
    using add_mod_drop [of "0xC0" 32 "s - 0xC0"] that by simp
  show "s mod 16 = s - (0xE0::nat)" if "0xE0 \<le> s" "s < 0xF0"
    using add_mod_drop [of "0xE0" 16 "s - 0xE0"] that by simp
  show "s mod 8 = s - (0xF0::nat)" if "0xF0 \<le> s" "s < 0xF8"
    using add_mod_drop [of "0xF0" 8 "s - 0xF0"] that by simp
  show "s mod 64 = s - (0x80::nat)" if "0x80 \<le> s" "s \<le> 0xBF"
    using add_mod_drop [of "0x80" 64 "s - 0x80"] that by simp
qed

lemma Decode_1: "(of_char c :: nat) < 0x80 \<Longrightarrow> DecodeRuneInString (c # cs) = (of_char c, 1)"
  by simp

lemma Decode_bad:
  "0x80 \<le> (of_char c :: nat) \<Longrightarrow> of_char c < (0xC2 :: nat) \<or> 0xF4 < (of_char c :: nat)
     \<Longrightarrow> DecodeRuneInString (c # cs) = (RuneError, 1)"
  by (simp add: Let_def)

lemma Decode_2:
  assumes "0xC2 \<le> (of_char c :: nat)" "(of_char c :: nat) < 0xE0"
  shows "DecodeRuneInString (c # cs) =
     (if length cs < 1 \<or> (of_char (cs ! 0) :: nat) < 0x80 \<or> 0xBF < (of_char (cs ! 0) :: nat)
      then (RuneError, 1)
      else ((of_char c mod 32) * 64 + of_char (cs ! 0) mod 64, 2))"
  using assms by (simp add: Let_def)

lemma Decode_3:
  assumes "0xE0 \<le> (of_char c :: nat)" "(of_char c :: nat) < 0xF0"
  shows "DecodeRuneInString (c # cs) =
     (if length cs < 2
         \<or> (of_char (cs ! 0) :: nat) < (if (of_char c :: nat) = 0xE0 then 0xA0 else 0x80)
         \<or> (if (of_char c :: nat) = 0xED then 0x9F else 0xBF) < (of_char (cs ! 0) :: nat)
         \<or> (of_char (cs ! 1) :: nat) < 0x80 \<or> 0xBF < (of_char (cs ! 1) :: nat)
      then (RuneError, 1)
      else ((of_char c mod 16) * 4096 + (of_char (cs ! 0) mod 64) * 64
              + of_char (cs ! 1) mod 64, 3))"
  using assms by (simp add: Let_def)

lemma Decode_4:
  assumes "0xF0 \<le> (of_char c :: nat)" "(of_char c :: nat) \<le> 0xF4"
  shows "DecodeRuneInString (c # cs) =
     (if length cs < 3
         \<or> (of_char (cs ! 0) :: nat) < (if (of_char c :: nat) = 0xF0 then 0x90 else 0x80)
         \<or> (if (of_char c :: nat) = 0xF4 then 0x8F else 0xBF) < (of_char (cs ! 0) :: nat)
         \<or> (of_char (cs ! 1) :: nat) < 0x80 \<or> 0xBF < (of_char (cs ! 1) :: nat)
         \<or> (of_char (cs ! 2) :: nat) < 0x80 \<or> 0xBF < (of_char (cs ! 2) :: nat)
      then (RuneError, 1)
      else ((of_char c mod 8) * 262144 + (of_char (cs ! 0) mod 64) * 4096
              + (of_char (cs ! 1) mod 64) * 64 + of_char (cs ! 2) mod 64, 4))"
  using assms by (simp add: Let_def)

lemma valid_RuneError: "valid_rune RuneError"
  by (simp add: valid_rune_def RuneError_def)

lemma valid3:
  assumes "a < 16" "b < 64" "c < 64" "a = 13 \<longrightarrow> b < 32"
  shows "valid_rune (a * 4096 + b * 64 + c)"
proof -
  consider "a \<le> 12" | "a = 13" | "14 \<le> a" by linarith
  then show ?thesis
  proof cases
    case 1
    then have "a * 4096 \<le> 12 * 4096" by (rule mult_le_mono1)
    then show ?thesis using assms by (simp add: valid_rune_def)
  next
    case 2
    then show ?thesis using assms by (simp add: valid_rune_def)
  next
    case 3
    then have "14 * 4096 \<le> a * 4096" by (rule mult_le_mono1)
    moreover have "a * 4096 \<le> 15 * 4096" using assms(1) by (intro mult_le_mono1) simp
    ultimately show ?thesis using assms by (simp add: valid_rune_def)
  qed
qed

lemma valid4:
  assumes "a \<le> 4" "b < 64" "c < 64" "d < 64" "a = 4 \<longrightarrow> b < 16" "a = 0 \<longrightarrow> 16 \<le> b"
  shows "valid_rune (a * 262144 + b * 4096 + c * 64 + d)"
proof -
  have lo: "0x10000 \<le> a * 262144 + b * 4096 + c * 64 + d"
  proof (cases "a = 0")
    case True
    then have "16 * 4096 \<le> b * 4096" using assms(6) by (intro mult_le_mono1) simp
    then show ?thesis by simp
  next
    case False
    then have "1 * 262144 \<le> a * 262144" by (intro mult_le_mono1) simp
    then show ?thesis by simp
  qed
  have b: "b * 4096 \<le> 63 * 4096" using assms(2) by (intro mult_le_mono1) simp
  have c: "c * 64 \<le> 63 * 64" using assms(3) by (intro mult_le_mono1) simp
  consider "a \<le> 3" | "a = 4" using assms(1) by linarith
  then have "a * 262144 + b * 4096 + c * 64 + d \<le> 0x10FFFF"
  proof cases
    case 1
    then have "a * 262144 \<le> 3 * 262144" by (rule mult_le_mono1)
    then show ?thesis using b c assms(4) by simp
  next
    case 2
    then have "b * 4096 \<le> 15 * 4096" using assms(5) by (intro mult_le_mono1) simp
    then show ?thesis using 2 c assms(4) by simp
  qed
  then show ?thesis using lo by (simp add: valid_rune_def)
qed

lemma valid2:
  assumes "a < 32" "b < 64"
  shows "valid_rune (a * 64 + b)"
proof -
  have "a * 64 \<le> 31 * 64" using assms(1) by (intro mult_le_mono1) simp
  then show ?thesis using assms(2) by (simp add: valid_rune_def)
qed

lemma Decode_valid: "valid_rune (fst (DecodeRuneInString s))"
proof (cases s)
  case Nil
  then show ?thesis by (simp add: valid_RuneError)
next
  case (Cons c cs)
  define s0 :: nat where "s0 = of_char c"
  consider "s0 < 0x80" | "0x80 \<le> s0 \<and> (s0 < 0xC2 \<or> 0xF4 < s0)" | "0xC2 \<le> s0 \<and> s0 < 0xE0"
    | "0xE0 \<le> s0 \<and> s0 < 0xF0" | "0xF0 \<le> s0 \<and> s0 \<le> 0xF4"
    by linarith
  then show ?thesis
  proof cases
    case 1
    then show ?thesis using Cons Decode_1 [of c cs] by (simp add: s0_def valid_rune_def)
  next
    case 2
    then show ?thesis using Cons Decode_bad [of c cs] by (auto simp add: s0_def valid_RuneError)
  next
    case 3
    then have m: "s0 mod 32 < 32" by simp
    have "valid_rune ((s0 mod 32) * 64 + x mod 64)" for x
      by (rule valid2) simp_all
    then show ?thesis using 3 Cons Decode_2 [of c cs]
      by (simp add: s0_def valid_RuneError)
  next
    case 4
    have "valid_rune ((s0 mod 16) * 4096 + (x mod 64) * 64 + y mod 64)"
      if "s0 = 0xED \<longrightarrow> x \<le> 0x9F" "0x80 \<le> x" "x \<le> 0xBF" for x y
    proof (rule valid3)
      show "s0 mod 16 = 13 \<longrightarrow> x mod 64 < 32"
        using that 4 by (auto simp: lead_mod)
    qed simp_all
    then show ?thesis using 4 Cons Decode_3 [of c cs]
      by (auto simp add: s0_def valid_RuneError not_less split: if_splits)
  next
    case 5
    have "valid_rune ((s0 mod 8) * 262144 + (x mod 64) * 4096 + (y mod 64) * 64 + z mod 64)"
      if "s0 = 0xF4 \<longrightarrow> x \<le> 0x8F" "s0 = 0xF0 \<longrightarrow> 0x90 \<le> x" "0x80 \<le> x" "x \<le> 0xBF" for x y z
    proof (rule valid4)
      show "s0 mod 8 \<le> 4" using 5 by (auto simp: lead_mod)
      show "s0 mod 8 = 4 \<longrightarrow> x mod 64 < 16" using that 5 by (auto simp: lead_mod)
      show "s0 mod 8 = 0 \<longrightarrow> 16 \<le> x mod 64" using that 5 by (auto simp: lead_mod)
    qed simp_all
    then show ?thesis using 5 Cons Decode_4 [of c cs]
      by (auto simp add: s0_def valid_RuneError not_less split: if_splits)
  qed
qed

lemma decode_encode4:
  assumes "0x10000 \<le> r" "r \<le> 0x10FFFF"
  shows "DecodeRuneInString ([char_of (0xF0 + r div 262144), char_of (0x80 + (r div 4096) mod 64),
            char_of (0x80 + (r div 64) mod 64), char_of (0x80 + r mod 64)] @ rest) = (r, 4)"
proof -
  define s0 where "s0 = 0xF0 + r div 262144"
  define s1 where "s1 = 0x80 + (r div 4096) mod 64"
  define s2 where "s2 = 0x80 + (r div 64) mod 64"
  define s3 where "s3 = 0x80 + r mod 64"
  have "r div 262144 \<le> 0x10FFFF div 262144" using assms(2) by (rule div_le_mono)
  then have u: "r div 262144 \<le> 4" by simp
  have lo: "0x90 \<le> s1" if "s0 = 0xF0"
  proof -
    have "r div 262144 = 0" using that by (simp add: s0_def)
    then have "r < 262144" by (simp add: div_eq_0_iff)
    then have "r div 4096 < 64" by simp
    moreover have "0x10000 div 4096 \<le> r div 4096" using assms(1) by (rule div_le_mono)
    ultimately show ?thesis by (simp add: s1_def)
  qed
  have hi: "s1 \<le> 0x8F" if "s0 = 0xF4"
  proof -
    have d: "r div 262144 = 4" using that by (simp add: s0_def)
    then have "4 * 262144 \<le> r" by simp
    then have "(4 * 262144) div 4096 \<le> r div 4096" by (rule div_le_mono)
    then have a: "4 * 64 \<le> r div 4096" by simp
    have "r div 4096 \<le> 0x10FFFF div 4096" using assms(2) by (rule div_le_mono)
    then have "r div 4096 < 4 * 64 + 16" by simp
    with a have "(r div 4096) mod 64 < 16" by (rule mod_window) simp
    then show ?thesis by (simp add: s1_def)
  qed
  have m0: "s0 mod 8 = r div 262144" unfolding s0_def using u by (intro add_mod_drop) simp_all
  have "DecodeRuneInString (char_of s0 # char_of s1 # char_of s2 # char_of s3 # rest)
           = ((s0 mod 8) * 262144 + (s1 mod 64) * 4096 + (s2 mod 64) * 64 + s3 mod 64, 4)"
  proof (rule Decode_bytes4)
    show "0xF0 \<le> s0" "s0 \<le> 0xF4" using u by (simp_all add: s0_def)
    show "(if s0 = 0xF0 then 0x90 else 0x80) \<le> s1" using lo by (simp add: s1_def)
    show "s1 \<le> (if s0 = 0xF4 then 0x8F else 0xBF)" using hi cont_byte(2) by (simp add: s1_def)
    show "0x80 \<le> s2" "s2 \<le> 0xBF" "0x80 \<le> s3" "s3 \<le> 0xBF"
      using cont_byte by (simp_all add: s2_def s3_def)
  qed
  then have "DecodeRuneInString (char_of s0 # char_of s1 # char_of s2 # char_of s3 # rest) = (r, 4)"
    by (simp add: m0 s1_def s2_def s3_def cont_byte split4)
  then show ?thesis by (simp add: s0_def s1_def s2_def s3_def)
qed

lemma Decode_Encode:
  assumes "valid_rune r"
  shows "DecodeRuneInString (EncodeRune r @ rest) = (r, length (EncodeRune r))"
proof -
  consider "r \<le> 0x7F" | "0x80 \<le> r \<and> r \<le> 0x7FF" | "0x800 \<le> r \<and> r \<le> 0xFFFF"
    | "0x10000 \<le> r" by linarith
  then show ?thesis
  proof cases
    case 1
    then show ?thesis by (simp add: EncodeRune_def)
  next
    case 2
    then show ?thesis using decode_encode2 [of r rest] by (simp add: EncodeRune_def)
  next
    case 3
    have "length (encode3 r) = 3" by (simp add: encode3_def)
    then show ?thesis using 3 assms decode_encode3 [of r rest]
      by (auto simp add: EncodeRune_def valid_rune_def)
  next
    case 4
    then show ?thesis using assms decode_encode4 [of r rest]
      by (simp add: EncodeRune_def valid_rune_def)
  qed
qed

lemma Decode_width:
  assumes "s \<noteq> []"
  shows "0 < snd (DecodeRuneInString s) \<and> snd (DecodeRuneInString s) \<le> length s"
proof -
  obtain c cs where s: "s = c # cs" using assms by (cases s) auto
  define s0 :: nat where "s0 = of_char c"
  consider "s0 < 0x80" | "0x80 \<le> s0 \<and> (s0 < 0xC2 \<or> 0xF4 < s0)" | "0xC2 \<le> s0 \<and> s0 < 0xE0"
    | "0xE0 \<le> s0 \<and> s0 < 0xF0" | "0xF0 \<le> s0 \<and> s0 \<le> 0xF4"
    by linarith
  then show ?thesis
  proof cases
    case 1
    then show ?thesis using s by (simp add: Decode_1 s0_def del: DecodeRuneInString.simps)
  next
    case 2
    then show ?thesis using s by (simp add: Decode_bad s0_def del: DecodeRuneInString.simps)
  next
    case 3
    then show ?thesis using s by (auto simp add: Decode_2 s0_def Suc_le_eq simp del: DecodeRuneInString.simps)
  next
    case 4
    then show ?thesis using s by (simp add: Decode_3 s0_def del: DecodeRuneInString.simps)
  next
    case 5
    then show ?thesis using s by (simp add: Decode_4 s0_def del: DecodeRuneInString.simps)
  qed
qed


section \<open>Lemmas on sanitise\<close>

declare sanitise_loop.simps [simp del] runes.simps [simp del] DecodeRuneInString.simps(2) [simp del]

lemma Decode_drop_less:
  assumes "name \<noteq> []" "DecodeRuneInString name = (r, n)"
  shows "length (drop n name) < length name"
  using Decode_width [OF assms(1)] assms by simp

lemma sanitise_loop_buf:
  "sanitise_loop T first buf name = buf @ sanitise_loop T first [] name"
proof (induction "length name" arbitrary: name first buf rule: less_induct)
  case less
  show ?case
  proof (cases "name = []")
    case True
    then show ?thesis by (simp add: sanitise_loop.simps)
  next
    case False
    obtain r n where d: "DecodeRuneInString name = (r, n)" by fastforce
    note IH = less [OF Decode_drop_less [OF False d]]
    have a: "sanitise_loop T first buf name =
        (if IsLetter T r \<or> (\<not> first \<and> IsNumber T r)
         then sanitise_loop T False (buf @ EncodeRune r) (drop n name)
         else sanitise_loop T first (buf @ ''_'') (drop n name))" for buf
      using False d by (subst sanitise_loop.simps) simp
    show ?thesis
    proof (cases "IsLetter T r \<or> (\<not> first \<and> IsNumber T r)")
      case True
      have "sanitise_loop T first buf name = sanitise_loop T False (buf @ EncodeRune r) (drop n name)"
        using a True by simp
      also have "\<dots> = (buf @ EncodeRune r) @ sanitise_loop T False [] (drop n name)"
        by (rule IH)
      also have "\<dots> = buf @ sanitise_loop T False ([] @ EncodeRune r) (drop n name)"
        using IH [of False "EncodeRune r"] by simp
      also have "\<dots> = buf @ sanitise_loop T first [] name"
        using a [of "[]"] True by simp
      finally show ?thesis .
    next
      case False
      have "sanitise_loop T first buf name = sanitise_loop T first (buf @ ''_'') (drop n name)"
        using a False by simp
      also have "\<dots> = (buf @ ''_'') @ sanitise_loop T first [] (drop n name)"
        by (rule IH)
      also have "\<dots> = buf @ sanitise_loop T first ([] @ ''_'') (drop n name)"
        using IH [of first "''_''"] by simp
      also have "\<dots> = buf @ sanitise_loop T first [] name"
        using a [of "[]"] False by simp
      finally show ?thesis .
    qed
  qed
qed

lemma sanitise_loop_step:
  assumes "name \<noteq> []" "DecodeRuneInString name = (r, n)"
  shows "sanitise_loop T first [] name =
     (if IsLetter T r \<or> (\<not> first \<and> IsNumber T r)
      then EncodeRune r @ sanitise_loop T False [] (drop n name)
      else ''_'' @ sanitise_loop T first [] (drop n name))"
proof -
  have "sanitise_loop T first [] name =
        (if IsLetter T r \<or> (\<not> first \<and> IsNumber T r)
         then sanitise_loop T False ([] @ EncodeRune r) (drop n name)
         else sanitise_loop T first ([] @ ''_'') (drop n name))"
    using assms by (subst sanitise_loop.simps) simp
  then show ?thesis
    using sanitise_loop_buf [of T False "EncodeRune r"] sanitise_loop_buf [of T first "''_''"]
    by simp
qed

lemma EncodeRune_length: "0 < length (EncodeRune r)"
  by (simp add: EncodeRune_def encode3_def)

lemma runes_Nil: "runes [] = []"
  by (simp add: runes.simps)

lemma sanitise_loop_Nil: "sanitise_loop T first buf [] = buf"
  by (simp add: sanitise_loop.simps)

lemma runes_step:
  assumes "s \<noteq> []" "DecodeRuneInString s = (r, n)"
  shows "runes s = r # runes (drop n s)"
  using assms by (subst runes.simps) simp

lemma runes_Encode:
  assumes "valid_rune r"
  shows "runes (EncodeRune r @ rest) = r # runes rest"
proof -
  have "EncodeRune r @ rest \<noteq> []" using EncodeRune_length [of r] by auto
  then show ?thesis
    using runes_step [OF _ Decode_Encode [OF assms, of rest]] by simp
qed

lemma runes_underscore: "runes (CHR ''_'' # rest) = underscore # runes rest"
proof -
  have "DecodeRuneInString (CHR ''_'' # rest) = (underscore, 1)"
    by (simp add: underscore_def DecodeRuneInString.simps)
  then show ?thesis using runes_step [of "CHR ''_'' # rest" underscore 1] by simp
qed

lemma runes_sanitise_loop:
  "runes (sanitise_loop T first [] name) = sanitise_runes T first (runes name)"
proof (induction "length name" arbitrary: name first rule: less_induct)
  case less
  show ?case
  proof (cases "name = []")
    case True
    then show ?thesis by (simp add: sanitise_loop_Nil runes_Nil)
  next
    case False
    obtain r n where d: "DecodeRuneInString name = (r, n)" by fastforce
    note IH = less [OF Decode_drop_less [OF False d]]
    have v: "valid_rune r" using Decode_valid [of name] d by simp
    show ?thesis
      by (simp only: sanitise_loop_step [OF False d] runes_step [OF False d])
         (simp add: runes_Encode [OF v] runes_underscore IH)
  qed
qed

lemma sanitise_runes_length: "length (sanitise_runes T first rs) = length rs"
  by (induction rs arbitrary: first) auto

lemma sanitise_runes_nth:
  "i < length rs \<Longrightarrow>
   sanitise_runes T first rs ! i =
     (if IsLetter T (rs ! i) \<or> (IsNumber T (rs ! i) \<and> (\<not> first \<or> (\<exists>j<i. IsLetter T (rs ! j))))
      then rs ! i else underscore)"
proof (induction rs arbitrary: first i)
  case Nil
  then show ?case by simp
next
  case (Cons r rs)
  show ?case
  proof (cases i)
    case 0
    then show ?thesis by simp
  next
    case (Suc k)
    then have k: "k < length rs" using Cons.prems by simp
    have ex: "(\<exists>j<Suc k. IsLetter T ((r # rs) ! j)) = (IsLetter T r \<or> (\<exists>j<k. IsLetter T (rs ! j)))"
      by (metis (no_types, lifting) less_Suc_eq_0_disj nth_Cons_0 nth_Cons_Suc)
    show ?thesis
      using Cons.IH [OF k, of False] Cons.IH [OF k, of first]
      by (auto simp add: Suc ex simp del: ex_simps)
  qed
qed

lemma Base_not_empty: "Base name \<noteq> []"
  by (simp add: Base_def Let_def)

lemma Base_empty_name: "Base [] = ''.''"
  by (simp add: Base_def)

lemma Base_separators:
  assumes "name \<noteq> []" "set name \<subseteq> {CHR ''/''}"
  shows "Base name = ''/''"
proof -
  have d: "dropWhile IsPathSeparator (rev name) = []"
    using assms(2) by (auto simp: IsPathSeparator_def)
  show ?thesis
    unfolding Base_def strip_trailing_def last_element_def Let_def d using assms(1) by simp
qed

lemma runes_empty_iff: "runes s = [] \<longleftrightarrow> s = []"
proof (cases "s = []")
  case True
  then show ?thesis by (simp add: runes_Nil)
next
  case False
  obtain r n where "DecodeRuneInString s = (r, n)" by fastforce
  then show ?thesis using False runes_step [of s r n] by simp
qed

lemma runes_sanitise:
  "runes (sanitise T name) = sanitise_runes T True (runes (Base name))"
proof -
  have "runes (sanitise_loop T True [] (Base name)) \<noteq> []"
    using Base_not_empty [of name]
    by (simp add: runes_sanitise_loop sanitise_runes_length runes_empty_iff
          flip: length_0_conv [of "sanitise_runes T True (runes (Base name))"])
  then have "sanitise_loop T True [] (Base name) \<noteq> []"
    by (auto simp: runes_Nil)
  then show ?thesis by (simp add: sanitise_def Let_def runes_sanitise_loop)
qed

lemma sanitise_loop_not_empty: "sanitise_loop T True [] (Base name) \<noteq> []"
proof
  assume "sanitise_loop T True [] (Base name) = []"
  then have "runes (sanitise_loop T True [] (Base name)) = []" by (simp add: runes_Nil)
  then have "length (runes (Base name)) = 0"
    using sanitise_runes_length [of T True "runes (Base name)"]
    by (simp add: runes_sanitise_loop)
  then show False using Base_not_empty [of name] by (simp add: runes_empty_iff)
qed

lemma sanitise_runes_no_letter:
  "\<forall>r\<in>set rs. \<not> IsLetter T r \<Longrightarrow> sanitise_runes T True rs = replicate (length rs) underscore"
  by (induction rs) auto

lemma sanitise_loop_no_letter:
  "\<forall>r\<in>set (runes name). \<not> IsLetter T r \<Longrightarrow>
   sanitise_loop T True [] name = replicate (length (runes name)) (CHR ''_'')"
proof (induction "length name" arbitrary: name rule: less_induct)
  case less
  show ?case
  proof (cases "name = []")
    case True
    then show ?thesis by (simp add: sanitise_loop_Nil runes_Nil)
  next
    case False
    obtain r n where d: "DecodeRuneInString name = (r, n)" by fastforce
    have rs: "runes name = r # runes (drop n name)" by (rule runes_step [OF False d])
    have "sanitise_loop T True [] (drop n name)
            = replicate (length (runes (drop n name))) (CHR ''_'')"
      using less.prems rs by (intro less.hyps Decode_drop_less [OF False d]) simp
    then show ?thesis
      using less.prems rs by (simp add: sanitise_loop_step [OF False d])
  qed
qed

lemma sanitise_runes_class:
  "r \<in> set (sanitise_runes T first rs) \<Longrightarrow> IsLetter T r \<or> IsNumber T r \<or> r = underscore"
  by (induction rs arbitrary: first) (auto split: if_splits)

lemma sanitise_runes_head:
  "sanitise_runes T True rs = r # rest \<Longrightarrow> IsLetter T r \<or> r = underscore"
  by (cases rs) (auto split: if_splits)

lemma EncodeRune_underscore: "EncodeRune underscore = ''_''"
  by code_simp

lemma sanitise_loop_encoding:
  "sanitise_loop T first [] name = concat (map EncodeRune (sanitise_runes T first (runes name)))"
proof (induction "length name" arbitrary: name first rule: less_induct)
  case less
  show ?case
  proof (cases "name = []")
    case True
    then show ?thesis by (simp add: sanitise_loop_Nil runes_Nil)
  next
    case False
    obtain r n where d: "DecodeRuneInString name = (r, n)" by fastforce
    note IH = less [OF Decode_drop_less [OF False d]]
    show ?thesis
      by (simp only: sanitise_loop_step [OF False d] runes_step [OF False d])
         (simp add: IH EncodeRune_underscore)
  qed
qed

lemma sanitise_well_formed:
  "concat (map EncodeRune (runes (sanitise T name))) = sanitise T name"
proof -
  have eq: "sanitise T name = sanitise_loop T True [] (Base name)"
    using sanitise_loop_not_empty [of T name] by (simp add: sanitise_def Let_def)
  have "concat (map EncodeRune (runes (sanitise_loop T True [] (Base name))))
      = concat (map EncodeRune (sanitise_runes T True (runes (Base name))))"
    by (simp only: runes_sanitise_loop)
  also have "\<dots> = sanitise_loop T True [] (Base name)"
    by (simp only: sanitise_loop_encoding)
  finally show ?thesis by (simp only: eq)
qed

lemma sanitise_runes_digits:
  "\<forall>r\<in>set rs. IsNumber T r \<longrightarrow> IsDigit T r \<Longrightarrow>
   list_all (\<lambda>r. IsLetter T r \<or> r = underscore \<or> IsDigit T r) (sanitise_runes T first rs)"
  by (induction rs arbitrary: first) auto


section \<open>Lemmas on Embed\<close>

declare read_loop.simps [simp del] hash_loop.simps [simp del] chunks.simps [simp del]

lemma write_all_ok:
  "script s = [] \<Longrightarrow> write_all s ps = (s\<lparr>accepted := accepted s @ ps\<rparr>, None)"
  by (induction ps arbitrary: s) (auto simp: sink_Write_def)

lemma dst_Write_ok:
  assumes "ok_chain w"
  shows "snd (dst_Write L w p) = None" "ok_chain (fst (dst_Write L w p))"
    "hasher (fst (dst_Write L w p)) = map_option (\<lambda>h. h @ p) (hasher w)"
  using assms
  by (auto simp: ok_chain_def dst_Write_def inner_Write_def gzip_Write_def sink_Write_def
        write_all_ok split: option.splits prod.splits)

lemma dst_Write_ok_eq:
  "ok_chain w \<Longrightarrow> dst_Write L w p = (fst (dst_Write L w p), None)"
  using dst_Write_ok(1) [of w L p] by (cases "dst_Write L w p") simp

lemma dst_Write_ok_case:
  "ok_chain w \<Longrightarrow>
   (case dst_Write L w p of (w', None) \<Rightarrow> f w' | (w', Some e) \<Rightarrow> g w' e)
     = f (fst (dst_Write L w p))"
  using dst_Write_ok(1) [of w L p] by (cases "dst_Write L w p") simp

lemma feed_append: "feed L w (ps @ qs) = feed L (feed L w ps) qs"
  by (induction ps arbitrary: w) auto

lemma feed_ok: "ok_chain w \<Longrightarrow> ok_chain (feed L w ps)"
  by (induction ps arbitrary: w) (auto simp: dst_Write_ok)

lemma feed_hasher:
  "ok_chain w \<Longrightarrow> hasher (feed L w ps) = map_option (\<lambda>h. h @ concat ps) (hasher w)"
proof (induction ps arbitrary: w)
  case Nil
  then show ?case by (simp add: option.map_ident)
next
  case (Cons p ps)
  then show ?case
    by (simp add: dst_Write_ok option.map_comp comp_def)
qed

lemma BUF_SIZE_pos: "0 < BUF_SIZE"
  by (simp add: BUF_SIZE_def)

lemma chunks_Nil: "chunks n [] = []"
  by (simp add: chunks.simps)

lemma chunks_step: "0 < n \<Longrightarrow> xs \<noteq> [] \<Longrightarrow> chunks n xs = take n xs # chunks n (drop n xs)"
  by (subst chunks.simps) simp

lemma hash_loop_ok:
  "ok_chain w \<Longrightarrow>
   hash_loop L w digest = (feed L w (map fmt_line (chunks BUF_SIZE digest)), None)"
proof (induction "length digest" arbitrary: digest w rule: less_induct)
  case less
  show ?case
  proof (cases "digest = []")
    case True
    then show ?thesis by (simp add: hash_loop.simps chunks_Nil)
  next
    case False
    define n where "n = (if BUF_SIZE < length digest then BUF_SIZE else length digest)"
    have n: "0 < n" "take n digest = take BUF_SIZE digest" "drop n digest = drop BUF_SIZE digest"
      using False by (auto simp: n_def BUF_SIZE_def)
    have len: "length (drop n digest) < length digest" using n(1) False by simp
    have ok': "ok_chain (fst (dst_Write L w (fmt_line (take n digest))))"
      using less.prems by (simp add: dst_Write_ok)
    have "hash_loop L w digest
            = hash_loop L (fst (dst_Write L w (fmt_line (take n digest)))) (drop n digest)"
      using False
      by (subst hash_loop.simps) (simp add: n_def Let_def dst_Write_ok_case [OF less.prems])
    also have "\<dots> = (feed L (fst (dst_Write L w (fmt_line (take n digest))))
                        (map fmt_line (chunks BUF_SIZE (drop n digest))), None)"
      by (rule less.hyps [OF len ok'])
    also have "\<dots> = (feed L w (map fmt_line (chunks BUF_SIZE digest)), None)"
      using False n chunks_step [of BUF_SIZE digest] by (simp add: BUF_SIZE_pos)
    finally show ?thesis .
  qed
qed

lemma BUF_SIZE_nonzero: "BUF_SIZE \<noteq> 0"
  by (simp add: BUF_SIZE_def)

lemma chunks_short: "0 < n \<Longrightarrow> xs \<noteq> [] \<Longrightarrow> length xs \<le> n \<Longrightarrow> chunks n xs = [xs]"
  by (simp add: chunks_step chunks_Nil)

lemma read_loop_ok:
  assumes "ok_chain w"
  shows "read_loop L w src =
     ((feed L w (map fmt_line
         (if clean_end src then chunks BUF_SIZE (pending src)
          else take (length (pending src) div BUF_SIZE) (chunks BUF_SIZE (pending src)))),
       src\<lparr>pending := [], reads := reads src + length (pending src) div BUF_SIZE + 1\<rparr>),
      if clean_end src then None else Some (final src))"
  using assms
proof (induction "length (pending src)" arbitrary: src w rule: less_induct)
  case less
  show ?case
  proof (cases "BUF_SIZE \<le> length (pending src)")
    case True
    define src' where "src' = src\<lparr>pending := drop BUF_SIZE (pending src), reads := reads src + 1\<rparr>"
    define w' where "w' = fst (dst_Write L w (fmt_line (take BUF_SIZE (pending src))))"
    have rf: "ReadFull src BUF_SIZE = ((take BUF_SIZE (pending src), None), src')"
      using True by (simp add: ReadFull_def src'_def)
    have ne: "pending src \<noteq> []" using True by (auto simp: BUF_SIZE_def)
    have len: "length (pending src') < length (pending src)"
      using True by (simp add: src'_def BUF_SIZE_def)
    have ok': "ok_chain w'" using less.prems by (simp add: w'_def dst_Write_ok)
    have step: "read_loop L w src = read_loop L w' src'"
      using True
      by (subst read_loop.simps)
         (simp add: rf dst_Write_ok_case [OF less.prems] w'_def min_absorb2 BUF_SIZE_nonzero)
    have d: "length (pending src) div BUF_SIZE = Suc (length (pending src') div BUF_SIZE)"
      using True by (simp add: src'_def BUF_SIZE_def le_div_geq)
    have c: "chunks BUF_SIZE (pending src)
               = take BUF_SIZE (pending src) # chunks BUF_SIZE (pending src')"
      using ne by (simp add: chunks_step BUF_SIZE_pos src'_def)
    have e: "clean_end src' = clean_end src" "final src' = final src"
      by (simp_all add: clean_end_def src'_def)
    show ?thesis
      unfolding step less.hyps [OF len ok'] d c e
      by (simp add: w'_def src'_def)
  next
    case False
    define src' where "src' = src\<lparr>pending := [], reads := reads src + 1\<rparr>"
    have z: "length (pending src) div BUF_SIZE = 0" using False by simp
    show ?thesis
    proof (cases "clean_end src")
      case clean: True
      have rf: "ReadFull src BUF_SIZE = ((pending src, Some (if pending src \<noteq> [] \<and> final src = EOF
                   then ErrUnexpectedEOF else final src)), src')"
        using False by (simp add: ReadFull_def src'_def)
      show ?thesis
      proof (cases "pending src = []")
        case True
        then show ?thesis using clean
          by (subst read_loop.simps) (auto simp add: rf chunks_Nil src'_def clean_end_def)
      next
        case ne: False
        have c: "chunks BUF_SIZE (pending src) = [pending src]"
          using ne False by (intro chunks_short) (simp_all add: BUF_SIZE_pos)
        show ?thesis using clean ne False
          by (subst read_loop.simps)
             (auto simp add: rf c z src'_def clean_end_def dst_Write_ok_case [OF less.prems])
      qed
    next
      case dirty: False
      have rf: "ReadFull src BUF_SIZE = ((pending src, Some (final src)), src')"
        using False dirty by (simp add: ReadFull_def src'_def clean_end_def)
      show ?thesis using dirty
        by (subst read_loop.simps) (auto simp add: rf z src'_def clean_end_def)
    qed
  qed
qed

lemma dst_Write_ok_pair:
  "ok_chain w \<Longrightarrow> (case dst_Write L w p of (w', e) \<Rightarrow> f w' e) = f (fst (dst_Write L w p)) None"
  using dst_Write_ok(1) [of w L p] by (cases "dst_Write L w p") simp

lemma feed_snoc: "feed L w (ps @ [p]) = fst (dst_Write L (feed L w ps) p)"
  by (simp add: feed_append)

lemma Embed_body_ok:
  assumes "ok_chain w0" "clean_end src" "hasher w0 = None"
  shows "Embed_body L F w0 src name =
     ((feed L (w0\<lparr>hasher := if sha F then Some [] else None\<rparr>) (emitted L F name (pending src)),
       end_of src), None)"
proof -
  define w1 where "w1 = w0\<lparr>hasher := if sha F then Some [] else None\<rparr>"
  define hd where "hd = data_header name (sanitise (unicode L) name)"
  define lines where "lines = map fmt_line (chunks BUF_SIZE (pending src))"
  define w2 where "w2 = fst (dst_Write L w1 hd)"
  define w3 where "w3 = feed L w2 lines"
  define w4 where "w4 = fst (dst_Write L w3 footer)"
  have w1: "(if sha F then w0\<lparr>hasher := Some []\<rparr> else w0) = w1"
    using assms(3) by (simp add: w1_def)
  have ok1: "ok_chain w1" using assms(1) by (simp add: w1_def ok_chain_def)
  have ok2: "ok_chain w2" using ok1 by (simp add: w2_def dst_Write_ok)
  have ok3: "ok_chain w3" using ok2 by (simp add: w3_def feed_ok)
  have ok4: "ok_chain w4" using ok3 by (simp add: w4_def dst_Write_ok)
  have db: "data_block (unicode L) name (pending src) = hd # lines @ [footer]"
    by (simp add: data_block_def hd_def lines_def)
  have w4_feed: "w4 = feed L w1 (data_block (unicode L) name (pending src))"
    by (simp add: db w4_def w3_def w2_def feed_append)
  have h4: "hasher w4 = (if sha F then Some (concat (data_block (unicode L) name (pending src)))
                         else None)"
    unfolding w4_feed using feed_hasher [OF ok1, of L] by (simp add: w1_def)
  have rl: "read_loop L w2 src = ((w3, end_of src), None)"
    using read_loop_ok [OF ok2, of L src] assms(2) by (simp add: w3_def lines_def end_of_def)
  have w4': "fst (dst_Write L w3 footer) = w4" by (simp add: w4_def)
  have body: "Embed_body L F w0 src name =
      (case hasher w4 of
         None \<Rightarrow> ((w4, end_of src), None)
       | Some h \<Rightarrow>
           (case dst_Write L w4 (hash_header name (sanitise (unicode L) name)) of
              (w5, Some e) \<Rightarrow> ((w5, end_of src), Some e)
            | (w5, None) \<Rightarrow>
                (case hash_loop L w5 (sha1_Sum L h) of
                   (w6, Some e) \<Rightarrow> ((w6, end_of src), Some e)
                 | (w6, None) \<Rightarrow>
                     (case dst_Write L w6 footer of (w7, e) \<Rightarrow> ((w7, end_of src), e)))))"
    unfolding Embed_body_def Let_def w1
    by (simp add: dst_Write_ok_case [OF ok1] dst_Write_ok_case [OF ok3] rl w4'
          flip: hd_def w2_def cong: option.case_cong)
  show ?thesis
  proof (cases "sha F")
    case False
    then show ?thesis using body h4 by (simp add: emitted_def w4_feed w1_def)
  next
    case True
    define h where "h = concat (data_block (unicode L) name (pending src))"
    define w5 where "w5 = fst (dst_Write L w4 (hash_header name (sanitise (unicode L) name)))"
    define w6 where "w6 = feed L w5 (map fmt_line (chunks BUF_SIZE (sha1_Sum L h)))"
    have ok5: "ok_chain w5" using ok4 by (simp add: w5_def dst_Write_ok)
    have ok6: "ok_chain w6" using ok5 by (simp add: w6_def feed_ok)
    have h4': "hasher w4 = Some h" using h4 True by (simp add: h_def)
    have "Embed_body L F w0 src name = ((fst (dst_Write L w6 footer), end_of src), None)"
      unfolding body h4'
      by (simp add: dst_Write_ok_case [OF ok4] hash_loop_ok [OF ok5] dst_Write_ok_pair [OF ok6]
            flip: w5_def w6_def)
    also have "fst (dst_Write L w6 footer) = feed L w4 (hash_block L name h)"
      by (simp add: hash_block_def w6_def w5_def feed_append)
    also have "\<dots> = feed L w1 (emitted L F name (pending src))"
      using True by (simp add: emitted_def w4_feed feed_append h_def)
    finally show ?thesis by (simp add: w1_def)
  qed
qed

lemma feed_plain:
  "gz w = None \<Longrightarrow> script (out w) = [] \<Longrightarrow>
   feed L w ps = w\<lparr>out := (out w)\<lparr>accepted := accepted (out w) @ ps\<rparr>,
                    hasher := map_option (\<lambda>h. h @ concat ps) (hasher w)\<rparr>"
proof (induction ps arbitrary: w)
  case Nil
  then show ?case by (simp add: option.map_ident)
next
  case (Cons p ps)
  have "fst (dst_Write L w p) = w\<lparr>out := (out w)\<lparr>accepted := accepted (out w) @ [p]\<rparr>,
                    hasher := map_option (\<lambda>h. h @ p) (hasher w)\<rparr>"
    using Cons.prems
    by (auto simp: dst_Write_def inner_Write_def sink_Write_def split: option.splits)
  then show ?case using Cons.prems
    by (simp add: Cons.IH option.map_comp comp_def)
qed

lemma feed_gzip:
  "gz w = Some g \<Longrightarrow> zerr g = None \<Longrightarrow> script (out w) = [] \<Longrightarrow>
   feed L w ps =
     w\<lparr>out := (out w)\<lparr>accepted := accepted (out w) @ snd (gzip_feed (gzip L) (zstate g) ps)\<rparr>,
       gz := Some (g\<lparr>zstate := fst (gzip_feed (gzip L) (zstate g) ps)\<rparr>),
       hasher := map_option (\<lambda>h. h @ concat ps) (hasher w)\<rparr>"
proof (induction ps arbitrary: w g)
  case Nil
  then show ?case by (simp add: option.map_ident)
next
  case (Cons p ps)
  obtain z' outs where zw: "zwrite (gzip L) (zstate g) p = (z', outs)" by fastforce
  define w' where "w' = w\<lparr>out := (out w)\<lparr>accepted := accepted (out w) @ outs\<rparr>,
                    gz := Some (g\<lparr>zstate := z'\<rparr>),
                    hasher := map_option (\<lambda>h. h @ p) (hasher w)\<rparr>"
  have step: "fst (dst_Write L w p) = w'"
    using Cons.prems zw
    by (auto simp: dst_Write_def inner_Write_def gzip_Write_def write_all_ok w'_def
          split: option.splits)
  have "feed L w' ps =
     w'\<lparr>out := (out w')\<lparr>accepted := accepted (out w') @ snd (gzip_feed (gzip L) z' ps)\<rparr>,
       gz := Some (g\<lparr>zstate := fst (gzip_feed (gzip L) z' ps)\<rparr>),
       hasher := map_option (\<lambda>h. h @ concat ps) (hasher w')\<rparr>"
    using Cons.IH [of w' "g\<lparr>zstate := z'\<rparr>"] Cons.prems by (simp add: w'_def)
  then show ?case
    by (simp add: step zw w'_def option.map_comp comp_def split: prod.splits)
qed

lemma Embed_plain_ok:
  assumes "script dst = []" "clean_end src" "\<not> compress F"
  shows "Embed L F dst src name =
     ((\<lparr>out = dst\<lparr>accepted := accepted dst @ emitted L F name (pending src)\<rparr>,
        gz = None,
        hasher = (if sha F then Some (concat (emitted L F name (pending src))) else None)\<rparr>,
       end_of src), None)"
proof -
  define w0 :: "'a chain" where "w0 = \<lparr>out = dst, gz = None, hasher = None\<rparr>"
  have ok: "ok_chain w0" using assms(1) by (simp add: ok_chain_def w0_def)
  have "Embed L F dst src name = Embed_body L F w0 src name"
    using assms(3) by (simp add: Embed_def w0_def)
  also have "\<dots> = ((feed L (w0\<lparr>hasher := if sha F then Some [] else None\<rparr>)
                        (emitted L F name (pending src)), end_of src), None)"
    by (rule Embed_body_ok [OF ok assms(2)]) (simp add: w0_def)
  finally show ?thesis using assms(1)
    by (simp add: feed_plain w0_def)
qed

lemma Embed_gzip_ok:
  assumes "script dst = []" "clean_end src" "compress F"
  shows "Embed L F dst src name =
     ((\<lparr>out = dst\<lparr>accepted := accepted dst
                      @ gzip_stream (gzip L) (emitted L F name (pending src))\<rparr>,
        gz = Some \<lparr>zstate = fst (gzip_feed (gzip L) (zinit (gzip L))
                                 (emitted L F name (pending src))),
                   zerr = None, zclosed = True, closes = 1\<rparr>,
        hasher = (if sha F then Some (concat (emitted L F name (pending src))) else None)\<rparr>,
       end_of src), None)"
proof -
  define wc :: "'a gzip_writer"
    where "wc = \<lparr>zstate = zinit (gzip L), zerr = None, zclosed = False, closes = 0\<rparr>"
  define w0 :: "'a chain" where "w0 = \<lparr>out = dst, gz = Some wc, hasher = None\<rparr>"
  have ok: "ok_chain w0" using assms(1) by (simp add: ok_chain_def w0_def wc_def)
  have body: "Embed_body L F w0 src name =
       ((feed L (w0\<lparr>hasher := if sha F then Some [] else None\<rparr>)
                        (emitted L F name (pending src)), end_of src), None)"
    by (rule Embed_body_ok [OF ok assms(2)]) (simp add: w0_def)
  have fd: "feed L (w0\<lparr>hasher := if sha F then Some [] else None\<rparr>) ps =
      \<lparr>out = dst\<lparr>accepted := accepted dst @ snd (gzip_feed (gzip L) (zinit (gzip L)) ps)\<rparr>,
       gz = Some (wc\<lparr>zstate := fst (gzip_feed (gzip L) (zinit (gzip L)) ps)\<rparr>),
       hasher = (if sha F then Some (concat ps) else None)\<rparr>" for ps
    using feed_gzip [of "w0\<lparr>hasher := if sha F then Some [] else None\<rparr>" wc L ps] assms(1)
    by (simp add: w0_def wc_def)
  show ?thesis
    using assms(1,3)
    by (simp add: Embed_def Let_def body fd wc_Close_def gzip_Close_def write_all_ok
          gzip_stream_def flip: wc_def w0_def split: prod.splits)
      (simp add: wc_def)
qed

section \<open>Lemmas on the exit paths of Embed\<close>

lemma read_loop_full:
  assumes "BUF_SIZE \<le> length (pending src)"
  shows "read_loop L w src =
     (case dst_Write L w (fmt_line (take BUF_SIZE (pending src))) of
        (w', Some e) \<Rightarrow>
          ((w', src\<lparr>pending := drop BUF_SIZE (pending src), reads := reads src + 1\<rparr>), Some e)
      | (w', None) \<Rightarrow>
          read_loop L w' (src\<lparr>pending := drop BUF_SIZE (pending src), reads := reads src + 1\<rparr>))"
  using assms
  by (subst read_loop.simps)
     (simp add: ReadFull_def min_absorb2 BUF_SIZE_nonzero split: prod.splits option.splits)

lemma read_loop_short:
  assumes "\<not> BUF_SIZE \<le> length (pending src)"
  shows "read_loop L w src =
     (let src0 = src\<lparr>pending := [], reads := reads src + 1\<rparr>;
          e = (if pending src \<noteq> [] \<and> final src = EOF then ErrUnexpectedEOF else final src)
      in if e \<noteq> EOF \<and> e \<noteq> ErrUnexpectedEOF then ((w, src0), Some e)
         else if pending src = [] then ((w, src0), None)
         else (case dst_Write L w (fmt_line (pending src)) of
                 (w', Some e') \<Rightarrow> ((w', src0), Some e')
               | (w', None) \<Rightarrow> ((w', src0), None)))"
  using assms
  by (subst read_loop.simps)
     (auto simp add: ReadFull_def Let_def split: prod.splits option.splits)

lemma dst_Write_closes: "closes_of (fst (dst_Write L w p)) = closes_of w"
  by (auto simp: closes_of_def dst_Write_def inner_Write_def gzip_Write_def
        split: option.splits prod.splits)

lemma dst_Write_closes': "dst_Write L w p = (w', e) \<Longrightarrow> closes_of w' = closes_of w"
  using dst_Write_closes [of L w p] by simp

lemma read_loop_closes: "closes_of (fst (fst (read_loop L w src))) = closes_of w"
proof (induction "length (pending src)" arbitrary: src w rule: less_induct)
  case less
  show ?case
  proof (cases "BUF_SIZE \<le> length (pending src)")
    case True
    define src1 where "src1 = src\<lparr>pending := drop BUF_SIZE (pending src), reads := reads src + 1\<rparr>"
    have len: "length (pending src1) < length (pending src)"
      using True by (simp add: src1_def BUF_SIZE_def)
    obtain w' e where dw: "dst_Write L w (fmt_line (take BUF_SIZE (pending src))) = (w', e)"
      by fastforce
    show ?thesis
      using less.hyps [OF len, of w', unfolded src1_def] dst_Write_closes' [OF dw]
      by (cases e) (simp_all add: read_loop_full [OF True] dw)
  next
    case False
    obtain w' e where dw: "dst_Write L w (fmt_line (pending src)) = (w', e)"
      by fastforce
    show ?thesis
      using dst_Write_closes' [OF dw]
      by (cases e) (simp_all add: read_loop_short [OF False] dw Let_def)
  qed
qed

lemma hash_loop_closes: "closes_of (fst (hash_loop L w digest)) = closes_of w"
proof (induction "length digest" arbitrary: digest w rule: less_induct)
  case less
  show ?case
  proof (cases "digest = []")
    case True
    then show ?thesis by (simp add: hash_loop.simps)
  next
    case False
    define n where "n = (if BUF_SIZE < length digest then BUF_SIZE else length digest)"
    have len: "length (drop n digest) < length digest"
      using False by (simp add: n_def BUF_SIZE_def)
    obtain w' e where dw: "dst_Write L w (fmt_line (take n digest)) = (w', e)" by fastforce
    have "hash_loop L w digest =
        (case e of Some e' \<Rightarrow> (w', Some e') | None \<Rightarrow> hash_loop L w' (drop n digest))"
      using False dw by (subst hash_loop.simps) (simp add: Let_def n_def split: option.splits)
    then show ?thesis
      using less.hyps [OF len, of w'] dst_Write_closes' [OF dw] by (cases e) simp_all
  qed
qed

lemma read_loop_closes': "read_loop L w src = ((w', s'), e) \<Longrightarrow> closes_of w' = closes_of w"
  using read_loop_closes [of L w src] by simp

lemma hash_loop_closes': "hash_loop L w digest = (w', e) \<Longrightarrow> closes_of w' = closes_of w"
  using hash_loop_closes [of L w digest] by simp

lemma Embed_body_closes:
  "closes_of (fst (fst (Embed_body L F w0 src name))) = closes_of w0"
proof -
  define w1 where "w1 = (if sha F then w0\<lparr>hasher := Some []\<rparr> else w0)"
  have c1: "closes_of w1 = closes_of w0" by (simp add: w1_def closes_of_def)
  show ?thesis
    unfolding Embed_body_def Let_def w1_def [symmetric]
    using c1
    by (auto split: prod.splits option.splits
          dest!: dst_Write_closes' read_loop_closes' hash_loop_closes')
qed

lemma wc_Close_closes:
  "gz w = Some g \<Longrightarrow> closes_of (fst (wc_Close L w)) = Some (closes g + 1)"
  by (auto simp: closes_of_def wc_Close_def gzip_Close_def Let_def
        split: option.splits prod.splits)



lemma Embed_body_stages:
  "Embed_body L F w0 src name =
     (case dst_Write L (if sha F then w0\<lparr>hasher := Some []\<rparr> else w0)
             (data_header name (sanitise (unicode L) name)) of
        (w2, Some e) \<Rightarrow> ((w2, src), Some e)
      | (w2, None) \<Rightarrow>
          (case read_loop L w2 src of
             ((w3, src'), Some e) \<Rightarrow> ((w3, src'), Some e)
           | ((w3, src'), None) \<Rightarrow>
               (case after_loop L name w3 of (w, e) \<Rightarrow> ((w, src'), e))))"
proof -
  define w1 where "w1 = (if sha F then w0\<lparr>hasher := Some []\<rparr> else w0)"
  define s where "s = sanitise (unicode L) name"
  obtain w2 e2 where 2: "dst_Write L w1 (data_header name s) = (w2, e2)" by fastforce
  obtain w3 src' e3 where 3: "read_loop L w2 src = ((w3, src'), e3)" by (metis prod.exhaust)
  obtain w4 e4 where 4: "dst_Write L w3 footer = (w4, e4)" by fastforce
  show ?thesis
    unfolding Embed_body_def Let_def after_loop_def w1_def [symmetric] s_def [symmetric] 2 3 4
    by (cases e2; cases e3; cases e4; cases "hasher w4")
       (simp_all split: prod.splits option.splits)
qed



lemma Embed_body_dirty:
  assumes "ok_chain w0" "\<not> clean_end src"
  shows "snd (Embed_body L F w0 src name) = Some (final src)"
proof -
  define w1 where "w1 = (if sha F then w0\<lparr>hasher := Some []\<rparr> else w0)"
  have ok1: "ok_chain w1" using assms(1) by (simp add: w1_def ok_chain_def)
  have ok2: "ok_chain (fst (dst_Write L w1 p))" for p using ok1 by (simp add: dst_Write_ok)
  show ?thesis
    unfolding Embed_body_def Let_def w1_def [symmetric]
    using assms(2)
    by (simp add: dst_Write_ok_case [OF ok1] read_loop_ok [OF ok2])
qed

lemma gz_after_refl: "live w \<Longrightarrow> gz_after w w r"
  by (auto simp: live_def gz_after_def split: option.splits)

lemma gz_after_live: "gz_after w w' None \<Longrightarrow> live w'"
  by (auto simp: live_def gz_after_def split: option.splits)

lemma gz_after_trans: "gz_after w w' r0 \<Longrightarrow> gz_after w' w'' r \<Longrightarrow> gz_after w w'' r"
  by (auto simp: gz_after_def split: option.splits)

lemma gz_after_hasher: "gz_after w w' r \<Longrightarrow> gz_after (w\<lparr>hasher := h\<rparr>) w' r"
  by (auto simp: gz_after_def split: option.splits)

lemma dst_Write_gz:
  assumes "live w" "dst_Write L w p = (w', r)"
  shows "gz_after w w' r"
  using assms
  by (auto simp: live_def gz_after_def dst_Write_def inner_Write_def gzip_Write_def
        split: option.splits prod.splits)

lemma read_loop_gz:
  "live w \<Longrightarrow> read_loop L w src = ((w', s'), r) \<Longrightarrow> gz_after w w' r"
proof (induction "length (pending src)" arbitrary: src w rule: less_induct)
  case less
  show ?case
  proof (cases "BUF_SIZE \<le> length (pending src)")
    case True
    define src1 where "src1 = src\<lparr>pending := drop BUF_SIZE (pending src), reads := reads src + 1\<rparr>"
    have len: "length (pending src1) < length (pending src)"
      using True by (simp add: src1_def BUF_SIZE_def)
    obtain w1 e where dw: "dst_Write L w (fmt_line (take BUF_SIZE (pending src))) = (w1, e)"
      by fastforce
    note g1 = dst_Write_gz [OF less.prems(1) dw]
    show ?thesis
    proof (cases e)
      case None
      then have "read_loop L w1 src1 = ((w', s'), r)"
        using less.prems(2) by (simp add: read_loop_full [OF True] dw src1_def)
      then have "gz_after w1 w' r"
        using less.hyps [OF len, of w1] gz_after_live g1 None by blast
      then show ?thesis using g1 gz_after_trans by blast
    next
      case (Some e')
      then have "w' = w1" "r = Some e'"
        using less.prems(2) by (simp_all add: read_loop_full [OF True] dw)
      then show ?thesis using g1 Some by simp
    qed
  next
    case False
    obtain w1 e where dw: "dst_Write L w (fmt_line (pending src)) = (w1, e)" by fastforce
    note g1 = dst_Write_gz [OF less.prems(1) dw]
    have "(w' = w) \<or> (w' = w1 \<and> r = e)"
      using less.prems(2)
      by (cases e) (auto simp add: read_loop_short [OF False] Let_def dw split: if_splits)
    then show ?thesis using g1 gz_after_refl [OF less.prems(1)] by auto
  qed
qed

lemma hash_loop_gz:
  "live w \<Longrightarrow> hash_loop L w digest = (w', r) \<Longrightarrow> gz_after w w' r"
proof (induction "length digest" arbitrary: digest w rule: less_induct)
  case less
  show ?case
  proof (cases "digest = []")
    case True
    then have "w' = w" using less.prems(2) by (simp add: hash_loop.simps)
    then show ?thesis using gz_after_refl [OF less.prems(1)] by simp
  next
    case False
    define n where "n = (if BUF_SIZE < length digest then BUF_SIZE else length digest)"
    have len: "length (drop n digest) < length digest"
      using False by (simp add: n_def BUF_SIZE_def)
    obtain w1 e where dw: "dst_Write L w (fmt_line (take n digest)) = (w1, e)" by fastforce
    note g1 = dst_Write_gz [OF less.prems(1) dw]
    have hl: "hash_loop L w digest =
        (case e of Some e' \<Rightarrow> (w1, Some e') | None \<Rightarrow> hash_loop L w1 (drop n digest))"
      using False by (subst hash_loop.simps) (simp add: Let_def n_def [symmetric] dw)
    show ?thesis
    proof (cases e)
      case None
      then have "hash_loop L w1 (drop n digest) = (w', r)" using less.prems(2) hl by simp
      then have "gz_after w1 w' r"
        using less.hyps [OF len, of w1] gz_after_live g1 None by blast
      then show ?thesis using g1 gz_after_trans by blast
    next
      case (Some e')
      then have "w' = w1" "r = Some e'" using less.prems(2) hl by simp_all
      then show ?thesis using g1 Some by simp
    qed
  qed
qed

lemma after_loop_gz:
  assumes "live w" "after_loop L name w = (w', r)"
  shows "gz_after w w' r"
proof -
  obtain w4 e4 where 4: "dst_Write L w footer = (w4, e4)" by fastforce
  note g4 = dst_Write_gz [OF assms(1) 4]
  show ?thesis
  proof (cases e4)
    case (Some e)
    then have "w' = w4" "r = Some e" using assms(2) by (simp_all add: after_loop_def 4)
    then show ?thesis using g4 Some by simp
  next
    case None
    note l4 = gz_after_live [OF g4 [unfolded None]]
    show ?thesis
    proof (cases "hasher w4")
      case N: None
      then have "w' = w4" "r = None" using assms(2) None by (simp_all add: after_loop_def 4)
      then show ?thesis using g4 None by simp
    next
      case (Some h)
      obtain w5 e5 where 5: "dst_Write L w4 (hash_header name (sanitise (unicode L) name)) = (w5, e5)"
        by fastforce
      note g5 = gz_after_trans [OF g4 dst_Write_gz [OF l4 5]]
      show ?thesis
      proof (cases e5)
        case S5: (Some e)
        then have "w' = w5" "r = Some e"
          using assms(2) None Some by (simp_all add: after_loop_def 4 5)
        then show ?thesis using g5 S5 by simp
      next
        case N5: None
        note l5 = gz_after_live [OF g5 [unfolded N5]]
        obtain w6 e6 where 6: "hash_loop L w5 (sha1_Sum L h) = (w6, e6)" by fastforce
        note g6 = gz_after_trans [OF g5 hash_loop_gz [OF l5 6]]
        show ?thesis
        proof (cases e6)
          case S6: (Some e)
          then have "w' = w6" "r = Some e"
            using assms(2) None Some N5 by (simp_all add: after_loop_def 4 5 6)
          then show ?thesis using g6 S6 by simp
        next
          case N6: None
          note l6 = gz_after_live [OF g6 [unfolded N6]]
          have "dst_Write L w6 footer = (w', r)"
            using assms(2) None Some N5 N6 by (simp add: after_loop_def 4 5 6)
          then show ?thesis using gz_after_trans [OF g6 dst_Write_gz [OF l6]] by blast
        qed
      qed
    qed
  qed
qed

lemma Embed_body_gz:
  assumes "live w0" "Embed_body L F w0 src name = ((w, src'), r)"
  shows "gz_after w0 w r"
proof -
  define w1 where "w1 = (if sha F then w0\<lparr>hasher := Some []\<rparr> else w0)"
  have l1: "live w1" using assms(1) by (simp add: w1_def live_def)
  have g01: "gz_after w0 w1 None" using assms(1) by (auto simp: w1_def live_def gz_after_def split: option.splits)
  obtain w2 e2 where 2: "dst_Write L w1 (data_header name (sanitise (unicode L) name)) = (w2, e2)"
    by fastforce
  note g2 = gz_after_trans [OF g01 dst_Write_gz [OF l1 2]]
  note st = Embed_body_stages [of L F w0 src name, unfolded w1_def [symmetric] 2]
  show ?thesis
  proof (cases e2)
    case (Some e)
    then have "w = w2" "r = Some e" using assms(2) st by simp_all
    then show ?thesis using g2 Some by simp
  next
    case None
    note l2 = gz_after_live [OF g2 [unfolded None]]
    obtain w3 s3 e3 where 3: "read_loop L w2 src = ((w3, s3), e3)" by (metis prod.exhaust)
    note g3 = gz_after_trans [OF g2 read_loop_gz [OF l2 3]]
    show ?thesis
    proof (cases e3)
      case S3: (Some e)
      then have "w = w3" "r = Some e" using assms(2) st None 3 by simp_all
      then show ?thesis using g3 S3 by simp
    next
      case N3: None
      note l3 = gz_after_live [OF g3 [unfolded N3]]
      obtain w4 e4 where 4: "after_loop L name w3 = (w4, e4)" by fastforce
      have "w = w4" "r = e4" using assms(2) st None 3 N3 4 by simp_all
      then show ?thesis using gz_after_trans [OF g3 after_loop_gz [OF l3 4]] by simp
    qed
  qed
qed

lemma Embed_body_dirty_chain:
  assumes "ok_chain w0" "\<not> clean_end src"
  shows "ok_chain (fst (fst (Embed_body L F w0 src name)))"
proof -
  define w1 where "w1 = (if sha F then w0\<lparr>hasher := Some []\<rparr> else w0)"
  have ok1: "ok_chain w1" using assms(1) by (simp add: w1_def ok_chain_def)
  have ok2: "ok_chain (fst (dst_Write L w1 p))" for p using ok1 by (simp add: dst_Write_ok)
  show ?thesis
    unfolding Embed_body_def Let_def w1_def [symmetric]
    using assms(2)
    by (simp add: dst_Write_ok_case [OF ok1] read_loop_ok [OF ok2] feed_ok [OF ok2])
qed


section \<open>Lemmas on the text of a line and on chunks\<close>

lemma hexval_hexdigit: "d < 16 \<Longrightarrow> hexval (hexdigit d) = Some d"
proof -
  assume "d < 16"
  then have "d \<in> set [0..<16]" by simp
  then have "d \<in> {0, 1, 2, 3, 4, 5, 6, 7, 8, 9, 10, 11, 12, 13, 14, 15}"
    by (simp add: upt_rec numeral_eq_Suc)
  then show ?thesis
    by (auto simp: hexdigit_def hexval_def)
qed

lemma nibble_hi: "unat (b::byte) div 16 < 16"
proof -
  have "unat b < 256" using unsigned_less [of b, where ?'a = nat] by simp
  then show ?thesis by (simp add: div_less_iff_less_mult)
qed

lemma hexval_nibbles:
  "hexval (hexdigit (unat (b::byte) div 16)) = Some (unat b div 16)"
  "hexval (hexdigit (unat (b::byte) mod 16)) = Some (unat b mod 16)"
  by (simp_all add: hexval_hexdigit nibble_hi)

lemma byte_of_nibbles: "(of_nat (16 * (unat b div 16) + unat b mod 16) :: byte) = b"
  by simp

lemma fmt_byte_entry: "fmt_byte b = entry b @ '' ''"
  by (simp add: fmt_byte_def entry_def)

lemma butlast_concat_fmt:
  "bs \<noteq> [] \<Longrightarrow> butlast (concat (map fmt_byte bs)) = join_entries bs"
proof (induction bs rule: join_entries.induct)
  case 1
  then show ?case by simp
next
  case (2 b)
  then show ?case by (simp add: fmt_byte_entry butlast_append)
next
  case (3 b v va)
  have "concat (map fmt_byte (v # va)) \<noteq> []" by (simp add: fmt_byte_def)
  then show ?case using 3 by (simp add: fmt_byte_entry butlast_append)
qed

lemma fmt_line_join: "chunk \<noteq> [] \<Longrightarrow> fmt_line chunk = TAB # join_entries chunk @ [NL]"
  using butlast_concat_fmt [of chunk]
  by (simp add: fmt_line_def Let_def butlast_conv_take)

lemma parse_entry_last: "parse_entries (entry b) = Some [b]"
  by (simp add: entry_def hexval_nibbles)

lemma parse_entry_more:
  "parse_entries (entry b @ '' '' @ rest) = map_option (Cons b) (parse_entries rest)"
  by (simp add: entry_def hexval_nibbles)

lemma parse_join_entries: "bs \<noteq> [] \<Longrightarrow> parse_entries (join_entries bs) = Some bs"
proof (induction bs rule: join_entries.induct)
  case 1
  then show ?case by simp
next
  case (2 b)
  show ?case by (simp add: parse_entry_last)
next
  case (3 b v va)
  then show ?case using parse_entry_more [of b "join_entries (v # va)"] by simp
qed

lemma parse_fmt_line: "chunk \<noteq> [] \<Longrightarrow> parse_line (fmt_line chunk) = Some chunk"
  by (simp add: fmt_line_join parse_line_def parse_join_entries)

lemma chunks_concat: "0 < n \<Longrightarrow> concat (chunks n xs) = xs"
proof (induction "length xs" arbitrary: xs rule: less_induct)
  case less
  show ?case
  proof (cases "xs = []")
    case True
    then show ?thesis by (simp add: chunks_Nil)
  next
    case False
    then have "length (drop n xs) < length xs" using less.prems by simp
    then have "concat (chunks n (drop n xs)) = drop n xs" using less by blast
    then show ?thesis using False less.prems by (simp add: chunks_step)
  qed
qed

lemma chunks_member: "0 < n \<Longrightarrow> c \<in> set (chunks n xs) \<Longrightarrow> c \<noteq> [] \<and> length c \<le> n"
proof (induction "length xs" arbitrary: xs rule: less_induct)
  case less
  show ?case
  proof (cases "xs = []")
    case True
    then show ?thesis using less.prems by (simp add: chunks_Nil)
  next
    case False
    then have len: "length (drop n xs) < length xs" using less.prems by simp
    have "c = take n xs \<or> c \<in> set (chunks n (drop n xs))"
      using less.prems False by (simp add: chunks_step)
    then show ?thesis
    proof
      assume "c = take n xs"
      then show ?thesis using False less.prems by simp
    next
      assume "c \<in> set (chunks n (drop n xs))"
      then show ?thesis using less.hyps [OF len less.prems(1)] by simp
    qed
  qed
qed








lemma sanitise_test_txt: "sanitise T ''test.txt'' = ''test_txt''"
  by code_simp

lemma join_entries_not_empty: "c \<noteq> [] \<Longrightarrow> join_entries c \<noteq> []"
  by (induction c rule: join_entries.induct) (simp_all add: entry_def)

lemma join_entries_last: "c \<noteq> [] \<Longrightarrow> last (join_entries c) = CHR '',''"
  by (induction c rule: join_entries.induct) (simp_all add: entry_def join_entries_not_empty)


lemma Embed_accepted_ok:
  assumes "script dst = []" "clean_end src"
  shows "accepted (out (fst (fst (Embed L F dst src name))))
     = accepted dst @ (if compress F then gzip_stream (gzip L) (emitted L F name (pending src))
                       else emitted L F name (pending src))"
  using Embed_plain_ok [OF assms, of F L name] Embed_gzip_ok [OF assms, of F L name]
  by (cases "compress F") simp_all

lemma fmt_bytes_length: "length (concat (map fmt_byte c)) = 6 * length c"
  by (induction c) (simp_all add: fmt_byte_def)

lemma fmt_line_length: "length c \<le> length (fmt_line c)"
  by (simp add: fmt_line_def Let_def fmt_bytes_length)

lemma fmt_lines_length: "length (concat cs) \<le> length (concat (map fmt_line cs))"
proof (induction cs)
  case Nil
  then show ?case by simp
next
  case (Cons c cs)
  then show ?case using fmt_line_length [of c] by simp
qed

lemma data_block_longer: "length d < length (concat (data_block T name d))"
proof -
  have "length d = length (concat (chunks BUF_SIZE d))"
    by (simp add: chunks_concat [OF BUF_SIZE_pos])
  also have "\<dots> \<le> length (concat (map fmt_line (chunks BUF_SIZE d)))"
    by (rule fmt_lines_length)
  also have "\<dots> < length (concat (data_block T name d))"
    by (simp add: data_block_def data_header_def)
  finally show ?thesis .
qed


lemma parse_fmt_lines:
  "map parse_line (map fmt_line (chunks BUF_SIZE d)) = map Some (chunks BUF_SIZE d)"
proof -
  have "parse_line (fmt_line c) = Some c" if "c \<in> set (chunks BUF_SIZE d)" for c
    using chunks_member [OF BUF_SIZE_pos that] by (simp add: parse_fmt_line)
  then show ?thesis by simp
qed


section \<open>Properties of sanitise\<close>

text \<open>
  C10: \<^verbatim>\<open>sanitise\<close> writes one code point, the code point read or an underscore, for
  each code point of the base name, so the result has as many code points as the base
  name. \<^verbatim>\<open>filepath.Base\<close> never returns the empty string (it returns \<^verbatim>\<open>.\<close> for
  the empty path), so the buffer is not empty after the loop, the fallback of lines 263
  to 265 is not taken, and the result is not empty.
\<close>

theorem sanitise_one_code_point_each:
  "Base name \<noteq> [] \<and> Base [] = ''.''
   \<and> length (runes (sanitise T name)) = length (runes (Base name))
   \<and> (\<forall>i<length (runes (Base name)).
         runes (sanitise T name) ! i = runes (Base name) ! i
         \<or> runes (sanitise T name) ! i = underscore)
   \<and> sanitise_loop T True [] (Base name) \<noteq> []
   \<and> sanitise T name = sanitise_loop T True [] (Base name)
   \<and> sanitise T name \<noteq> []"
proof -
  have ne: "sanitise_loop T True [] (Base name) \<noteq> []" by (rule sanitise_loop_not_empty)
  then have eq: "sanitise T name = sanitise_loop T True [] (Base name)"
    by (simp add: sanitise_def Let_def)
  have len: "length (runes (sanitise T name)) = length (runes (Base name))"
    by (simp add: runes_sanitise sanitise_runes_length)
  have nth: "runes (sanitise T name) ! i = runes (Base name) ! i
         \<or> runes (sanitise T name) ! i = underscore" if "i < length (runes (Base name))" for i
    using that by (simp add: runes_sanitise sanitise_runes_nth)
  show ?thesis using ne eq len nth Base_not_empty Base_empty_name by simp
qed

theorem sanitise_one_code_point_each_witness:
  "(1::nat) < length (runes (Base ''d/1a.go''))
   \<and> length (runes (sanitise test_tables ''d/1a.go'')) = 5
   \<and> runes (sanitise test_tables ''d/1a.go'') ! 1 = runes (Base ''d/1a.go'') ! 1
   \<and> runes (sanitise test_tables ''d/1a.go'') ! 0 = underscore
   \<and> sanitise test_tables ''d/1a.go'' = ''_a_go''"
proof -
  have ev: "runes (Base ''d/1a.go'') = [0x31, 0x61, 0x2E, 0x67, 0x6F]"
    "sanitise test_tables ''d/1a.go'' = ''_a_go''"
    "runes ''_a_go'' = [0x5F, 0x61, 0x5F, 0x67, 0x6F]"
    by code_simp+
  have "length (runes (sanitise test_tables ''d/1a.go'')) = length (runes (Base ''d/1a.go''))"
    using sanitise_one_code_point_each [of "''d/1a.go''" test_tables] by blast
  then show ?thesis by (simp add: ev underscore_def)
qed


text \<open>
  C5: each code point of the base name is kept if it is a letter, kept if it is a decimal
  digit and a letter stands before it, and replaced by one underscore otherwise, for every
  base name on whose code points \<^verbatim>\<open>unicode.IsNumber\<close> and \<^verbatim>\<open>unicode.IsDigit\<close> agree.
  The code tests \<^verbatim>\<open>unicode.IsNumber\<close> where the rule asks for a digit (line 259): in the
  name made of \<^verbatim>\<open>a\<close> and U+00BC (the fraction one quarter, bytes C2 BC), U+00BC is
  neither a letter nor a decimal digit and is kept, so the result is not \<^verbatim>\<open>a_\<close> and is
  not an identifier.
\<close>

theorem sanitise_digit_rule:
  "(let rs = runes (Base name); out = runes (sanitise T name) in
     (\<forall>r\<in>set rs. IsNumber T r = IsDigit T r) \<longrightarrow>
       length out = length rs
       \<and> (\<forall>i<length rs.
             out ! i =
               (if IsLetter T (rs ! i) \<or> (IsDigit T (rs ! i) \<and> (\<exists>j<i. IsLetter T (rs ! j)))
                then rs ! i else underscore))
       \<and> (\<forall>i<length rs. (\<forall>j\<le>i. \<not> IsLetter T (rs ! j)) \<longrightarrow> out ! i = underscore)
       \<and> (\<forall>i<length rs. IsDigit T (rs ! i) \<and> (\<exists>j<i. IsLetter T (rs ! j)) \<longrightarrow> out ! i = rs ! i))
   \<and> (let rs = runes (Base [CHR ''a'', CHR 0xC2, CHR 0xBC]);
          out = runes (sanitise T [CHR ''a'', CHR 0xC2, CHR 0xBC]) in
        rs = [0x61, 0xBC] \<and> IsLetter T 0x61
        \<and> \<not> IsLetter T 0xBC \<and> \<not> IsDigit T 0xBC \<and> IsNumber T 0xBC
        \<and> out = [0x61, 0xBC] \<and> out ! 1 \<noteq> underscore
        \<and> sanitise T [CHR ''a'', CHR 0xC2, CHR 0xBC] = [CHR ''a'', CHR 0xC2, CHR 0xBC]
        \<and> sanitise T [CHR ''a'', CHR 0xC2, CHR 0xBC] \<noteq> ''a_''
        \<and> [CHR ''a'', CHR 0xC2, CHR 0xBC] \<notin> set reserved_words
        \<and> \<not> is_identifier T (sanitise T [CHR ''a'', CHR 0xC2, CHR 0xBC]))"
proof -
  define rs where "rs = runes (Base name)"
  define out where "out = runes (sanitise T name)"
  have rule: "length out = length rs
       \<and> (\<forall>i<length rs.
             out ! i =
               (if IsLetter T (rs ! i) \<or> (IsDigit T (rs ! i) \<and> (\<exists>j<i. IsLetter T (rs ! j)))
                then rs ! i else underscore))
       \<and> (\<forall>i<length rs. (\<forall>j\<le>i. \<not> IsLetter T (rs ! j)) \<longrightarrow> out ! i = underscore)
       \<and> (\<forall>i<length rs. IsDigit T (rs ! i) \<and> (\<exists>j<i. IsLetter T (rs ! j)) \<longrightarrow> out ! i = rs ! i)"
    if same: "\<forall>r\<in>set rs. IsNumber T r = IsDigit T r"
  proof -
    have len: "length out = length rs"
      by (simp add: out_def rs_def runes_sanitise sanitise_runes_length)
    have nth: "out ! i =
               (if IsLetter T (rs ! i) \<or> (IsDigit T (rs ! i) \<and> (\<exists>j<i. IsLetter T (rs ! j)))
                then rs ! i else underscore)" if "i < length rs" for i
    proof -
      have "IsNumber T (rs ! i) = IsDigit T (rs ! i)" using same that by simp
      then show ?thesis
        using that by (auto simp add: out_def rs_def runes_sanitise sanitise_runes_nth)
    qed
    have a: "out ! i = underscore" if "i < length rs" "\<forall>j\<le>i. \<not> IsLetter T (rs ! j)" for i
    proof -
      have "\<not> IsLetter T (rs ! i)" "\<not> (\<exists>j<i. IsLetter T (rs ! j))" using that(2) by auto
      then show ?thesis using nth [OF that(1)] by auto
    qed
    have b: "out ! i = rs ! i"
      if "i < length rs" "IsDigit T (rs ! i) \<and> (\<exists>j<i. IsLetter T (rs ! j))" for i
      using nth [OF that(1)] that(2) by auto
    show ?thesis using len nth a b by blast
  qed
  have slip: "(let rs = runes (Base [CHR ''a'', CHR 0xC2, CHR 0xBC]);
          out = runes (sanitise T [CHR ''a'', CHR 0xC2, CHR 0xBC]) in
        rs = [0x61, 0xBC] \<and> IsLetter T 0x61
        \<and> \<not> IsLetter T 0xBC \<and> \<not> IsDigit T 0xBC \<and> IsNumber T 0xBC
        \<and> out = [0x61, 0xBC] \<and> out ! 1 \<noteq> underscore
        \<and> sanitise T [CHR ''a'', CHR 0xC2, CHR 0xBC] = [CHR ''a'', CHR 0xC2, CHR 0xBC]
        \<and> sanitise T [CHR ''a'', CHR 0xC2, CHR 0xBC] \<noteq> ''a_''
        \<and> [CHR ''a'', CHR 0xC2, CHR 0xBC] \<notin> set reserved_words
        \<and> \<not> is_identifier T (sanitise T [CHR ''a'', CHR 0xC2, CHR 0xBC]))"
    by code_simp
  show ?thesis
    unfolding Let_def rs_def [symmetric] out_def [symmetric]
    using rule slip [unfolded Let_def] by blast
qed

theorem sanitise_digit_rule_witness:
  "runes (Base ''12a3.x'') = [0x31, 0x32, 0x61, 0x33, 0x2E, 0x78]
   \<and> list_all (\<lambda>r. IsNumber test_tables r = IsDigit test_tables r) (runes (Base ''12a3.x''))
   \<and> runes (sanitise test_tables ''12a3.x'') ! 0 = underscore
   \<and> runes (sanitise test_tables ''12a3.x'') ! 3 = 0x33
   \<and> runes (sanitise test_tables ''12a3.x'') ! 4 = underscore
   \<and> sanitise test_tables ''12a3.x'' = ''__a3_x''"
proof -
  have ev: "runes (Base ''12a3.x'') = [0x31, 0x32, 0x61, 0x33, 0x2E, 0x78]"
    "sanitise test_tables ''12a3.x'' = ''__a3_x''"
    "list_all (\<lambda>r. IsNumber test_tables r = IsDigit test_tables r) (runes (Base ''12a3.x''))"
    by code_simp+
  have same: "\<forall>r\<in>set (runes (Base ''12a3.x'')). IsNumber test_tables r = IsDigit test_tables r"
    using ev(3) by (simp add: list_all_iff)
  have cls: "\<not> IsLetter test_tables 0x31" "IsDigit test_tables 0x33" "IsLetter test_tables 0x61"
    "\<not> IsLetter test_tables 0x33" "\<not> IsLetter test_tables 0x2E" "\<not> IsDigit test_tables 0x2E"
    by (simp_all add: IsLetter_def IsDigit_def latin1_letter_def)
  note t0 = sanitise_digit_rule [of "''12a3.x''" test_tables, THEN conjunct1,
      unfolded Let_def, THEN mp, OF same]
  note t = t0 [unfolded ev(1)]
  have 0: "runes (sanitise test_tables ''12a3.x'') ! 0 = underscore"
    using t cls by simp
  have "\<exists>j<3. IsLetter test_tables ([0x31, 0x32, 0x61, 0x33, 0x2E, 0x78] ! j)"
    using cls by (intro exI [of _ 2]) simp
  then have 3: "runes (sanitise test_tables ''12a3.x'') ! 3 = 0x33"
    using t cls by simp
  have 4: "runes (sanitise test_tables ''12a3.x'') ! 4 = underscore"
    using t cls by simp
  show ?thesis using 0 3 4 ev by simp
qed

text \<open>
  C4, as the code contradicts it: the result does not always start with a letter, and it
  can be a reserved word. The name \<^verbatim>\<open>1.txt\<close> gives \<^verbatim>\<open>__txt\<close>, whose first code point
  is an underscore; the name \<^verbatim>\<open>go\<close> gives \<^verbatim>\<open>go\<close>. The inputs are ASCII, so the range
  tables are not looked at.
\<close>

theorem sanitise_counterexample_leading_digit:
  "sanitise test_tables ''1.txt'' = ''__txt''
   \<and> \<not> (case runes (sanitise test_tables ''1.txt'') of
            [] \<Rightarrow> False | r # rest \<Rightarrow> IsLetter test_tables r)
   \<and> sanitise test_tables ''go'' = ''go''
   \<and> ''go'' \<in> set reserved_words
   \<and> \<not> is_identifier test_tables (sanitise test_tables ''go'')"
  by code_simp


text \<open>
  C4, as amended: for every name the result is not empty, its first code point is a
  letter or an underscore, and equal names give equal results. When every code point of
  the base name that \<^verbatim>\<open>unicode.IsNumber\<close> accepts is a decimal digit, each code point of
  the result is a letter, a decimal digit or an underscore, and the result is an
  identifier unless it is a reserved word. Nothing is said of the other names.
\<close>

theorem sanitise_shape:
  "sanitise T name \<noteq> []
   \<and> (case runes (sanitise T name) of [] \<Rightarrow> False | r # rest \<Rightarrow> IsLetter T r \<or> r = underscore)
   \<and> ((\<forall>r\<in>set (runes (Base name)). IsNumber T r \<longrightarrow> IsDigit T r) \<longrightarrow>
        (\<forall>r\<in>set (runes (sanitise T name)). IsLetter T r \<or> IsDigit T r \<or> r = underscore)
        \<and> (sanitise T name \<notin> set reserved_words \<longrightarrow> is_identifier T (sanitise T name)))
   \<and> (name' = name \<longrightarrow> sanitise T name' = sanitise T name)"
proof -
  have ne: "sanitise T name \<noteq> []"
    using sanitise_loop_not_empty [of T name] by (simp add: sanitise_def Let_def)
  then have "runes (sanitise T name) \<noteq> []" by (simp add: runes_empty_iff)
  then obtain r rest where rs: "runes (sanitise T name) = r # rest"
    by (cases "runes (sanitise T name)") auto
  then have r: "IsLetter T r \<or> r = underscore"
    using sanitise_runes_head [of T "runes (Base name)" r rest] by (simp add: runes_sanitise)
  then have hd: "case runes (sanitise T name) of [] \<Rightarrow> False
                 | r # rest \<Rightarrow> IsLetter T r \<or> r = underscore"
    by (simp add: rs)
  have ident: "(\<forall>r\<in>set (runes (sanitise T name)). IsLetter T r \<or> IsDigit T r \<or> r = underscore)
        \<and> (sanitise T name \<notin> set reserved_words \<longrightarrow> is_identifier T (sanitise T name))"
    if "\<forall>r\<in>set (runes (Base name)). IsNumber T r \<longrightarrow> IsDigit T r"
  proof -
    have all: "list_all (\<lambda>r. IsLetter T r \<or> r = underscore \<or> IsDigit T r) (r # rest)"
      using sanitise_runes_digits [OF that, of True] rs by (simp add: runes_sanitise)
    then have tl: "list_all (\<lambda>r. IsLetter T r \<or> r = underscore \<or> IsDigit T r) rest" by simp
    have wf: "EncodeRune r @ concat (map EncodeRune rest) = sanitise T name"
      using sanitise_well_formed [of T name] by (simp add: rs)
    have "is_identifier T (sanitise T name)" if "sanitise T name \<notin> set reserved_words"
      unfolding is_identifier_def
      using r tl that by (simp add: wf rs)
    moreover have "\<forall>r\<in>set (runes (sanitise T name)). IsLetter T r \<or> IsDigit T r \<or> r = underscore"
      using all unfolding rs by (auto simp: list_all_iff)
    ultimately show ?thesis by simp
  qed
  show ?thesis using ne hd ident by blast
qed

theorem sanitise_shape_witness:
  "list_all (\<lambda>r. \<not> IsNumber test_tables r \<or> IsDigit test_tables r) (runes (Base ''9 lives2.txt''))
   \<and> sanitise test_tables ''9 lives2.txt'' = ''__lives2_txt''
   \<and> ''__lives2_txt'' \<notin> set reserved_words
   \<and> is_identifier test_tables ''__lives2_txt''"
proof -
  have ev: "sanitise test_tables ''9 lives2.txt'' = ''__lives2_txt''"
    "list_all (\<lambda>r. \<not> IsNumber test_tables r \<or> IsDigit test_tables r) (runes (Base ''9 lives2.txt''))"
    "''__lives2_txt'' \<notin> set reserved_words"
    by code_simp+
  then have h: "\<forall>r\<in>set (runes (Base ''9 lives2.txt'')). IsNumber test_tables r \<longrightarrow> IsDigit test_tables r"
    by (auto simp: list_all_iff)
  have "is_identifier test_tables (sanitise test_tables ''9 lives2.txt'')"
    using sanitise_shape [of test_tables "''9 lives2.txt''" "''9 lives2.txt''"] h ev(3)
    unfolding ev(1) by blast
  then show ?thesis using ev by simp
qed


text \<open>
  C6, as the code contradicts it: a base name of several code points that are neither
  letters nor digits gives as many underscores, not a single one. The name \<^verbatim>\<open>--\<close>
  gives \<^verbatim>\<open>__\<close>.
\<close>

theorem sanitise_counterexample_many_underscores:
  "list_all (\<lambda>r. \<not> IsLetter test_tables r \<and> \<not> IsNumber test_tables r) (runes (Base ''--''))
   \<and> sanitise test_tables ''--'' = ''__''
   \<and> sanitise test_tables ''--'' \<noteq> ''_''"
  by code_simp


text \<open>
  C6, as amended: when the base name holds no letter, the result is one underscore for
  each code point of the base name; for the empty name and for a name made of path
  separators only (base names \<^verbatim>\<open>.\<close> and \<^verbatim>\<open>/\<close>) it is exactly one underscore.
\<close>

theorem sanitise_no_letter:
  "((\<forall>r\<in>set (runes (Base name)). \<not> IsLetter T r) \<longrightarrow>
      sanitise T name = replicate (length (runes (Base name))) (CHR ''_''))
   \<and> (name = [] \<or> set name \<subseteq> {CHR ''/''} \<longrightarrow> sanitise T name = ''_'')"
proof -
  have a: "sanitise T name = replicate (length (runes (Base name))) (CHR ''_'')"
    if "\<forall>r\<in>set (runes (Base name)). \<not> IsLetter T r"
  proof -
    have "sanitise T name = sanitise_loop T True [] (Base name)"
      using sanitise_loop_not_empty [of T name] by (simp add: sanitise_def Let_def)
    then show ?thesis using sanitise_loop_no_letter [OF that] by simp
  qed
  have b: "sanitise T name = ''_''" if "name = [] \<or> set name \<subseteq> {CHR ''/''}"
  proof -
    have "Base name = ''.'' \<or> Base name = ''/''"
      using that Base_empty_name Base_separators [of name] by (cases "name = []") auto
    then show ?thesis
    proof
      assume "Base name = ''.''"
      moreover have "sanitise_loop T True [] ''.'' = ''_''"
        by (simp add: sanitise_loop.simps DecodeRuneInString.simps IsLetter_def latin1_letter_def)
      ultimately show ?thesis by (simp add: sanitise_def)
    next
      assume "Base name = ''/''"
      moreover have "sanitise_loop T True [] ''/'' = ''_''"
        by (simp add: sanitise_loop.simps DecodeRuneInString.simps IsLetter_def latin1_letter_def)
      ultimately show ?thesis by (simp add: sanitise_def)
    qed
  qed
  show ?thesis using a b by blast
qed

theorem sanitise_no_letter_witness:
  "list_all (\<lambda>r. \<not> IsLetter test_tables r) (runes (Base ''a/12-3''))
   \<and> sanitise test_tables ''a/12-3'' = ''____''
   \<and> set ''//'' \<subseteq> {CHR ''/''}
   \<and> sanitise test_tables ''//'' = ''_''"
proof -
  have ev: "list_all (\<lambda>r. \<not> IsLetter test_tables r) (runes (Base ''a/12-3''))"
    "length (runes (Base ''a/12-3'')) = 4"
    by code_simp+
  then have "\<forall>r\<in>set (runes (Base ''a/12-3'')). \<not> IsLetter test_tables r"
    by (simp add: list_all_iff)
  then have 1: "sanitise test_tables ''a/12-3'' = ''____''"
    using sanitise_no_letter [of "''a/12-3''" test_tables] ev(2)
    by (simp add: numeral_eq_Suc)
  have 2: "sanitise test_tables ''//'' = ''_''"
    using sanitise_no_letter [of "''//''" test_tables] by simp
  show ?thesis using ev 1 2 by simp
qed


section \<open>Properties of Embed\<close>



text \<open>
  C3, as the code contradicts it: the line of the bytes 0x41, 0x42, 0x43 ends with a
  comma. Only the last character of \<^verbatim>\<open>data\<close>, the space, is cut off
  (\<^verbatim>\<open>data[:len(data)-1]\<close>), so the separator after the final byte is not trimmed as a
  whole.
\<close>

theorem Embed_counterexample_trailing_comma:
  "accepted (out (fst (fst (Embed test_library \<lparr>compress = False, sha = False\<rparr> all_ok
       (file_of [0x41, 0x42, 0x43]) ''test.txt''))))
     = [[NL] @ ''// test.txt'' @ [NL] @ ''var test_txt = []byte{'' @ [NL],
        [TAB] @ ''0x41, 0x42, 0x43,'' @ [NL],
        ''}'' @ [NL]]
   \<and> [TAB] @ ''0x41, 0x42, 0x43,'' @ [NL] \<noteq> [TAB] @ ''0x41, 0x42, 0x43'' @ [NL]"
  by code_simp


text \<open>
  C3, as amended: each line of the data block is a tab, the entries of its chunk and a
  newline, where an entry is \<^verbatim>\<open>0x\<close>, two hexadecimal digits and a comma, and one space
  stands between two entries; the line ends with the comma of its last entry. For the
  bytes 0x41, 0x42, 0x43 and the name \<^verbatim>\<open>test.txt\<close>, without compression and hash, the
  output is the header, the line \<^verbatim>\<open>0x41, 0x42, 0x43,\<close> and the closing brace.
\<close>

theorem Embed_line_format:
  assumes "script dst = []" "clean_end src" "\<not> compress F"
  shows "accepted (out (fst (fst (Embed L F dst src name))))
         = accepted dst @ [data_header name (sanitise (unicode L) name)]
             @ map (\<lambda>c. [TAB] @ join_entries c @ [NL]) (chunks BUF_SIZE (pending src)) @ [footer]
             @ (if sha F then hash_block L name (concat (data_block (unicode L) name (pending src)))
                else [])
     \<and> (\<forall>c\<in>set (chunks BUF_SIZE (pending src)). c \<noteq> [] \<and> last (join_entries c) = CHR '','')
     \<and> join_entries [b1, b2, b3] = entry b1 @ '' '' @ entry b2 @ '' '' @ entry b3
     \<and> entry b1 = ''0x'' @ [hexdigit (unat b1 div 16), hexdigit (unat b1 mod 16)] @ '',''
     \<and> accepted (out (fst (fst (Embed L \<lparr>compress = False, sha = False\<rparr> all_ok
            (file_of [0x41, 0x42, 0x43]) ''test.txt''))))
         = [[NL] @ ''// test.txt'' @ [NL] @ ''var test_txt = []byte{'' @ [NL],
            [TAB] @ ''0x41, 0x42, 0x43,'' @ [NL],
            ''}'' @ [NL]]"
proof -
  have mem: "c \<noteq> []" if "c \<in> set (chunks BUF_SIZE (pending src))" for c
    using chunks_member [OF BUF_SIZE_pos that] by simp
  then have lines: "map fmt_line (chunks BUF_SIZE (pending src))
      = map (\<lambda>c. [TAB] @ join_entries c @ [NL]) (chunks BUF_SIZE (pending src))"
    by (simp add: fmt_line_join)
  have 1: "accepted (out (fst (fst (Embed L F dst src name))))
         = accepted dst @ [data_header name (sanitise (unicode L) name)]
             @ map (\<lambda>c. [TAB] @ join_entries c @ [NL]) (chunks BUF_SIZE (pending src)) @ [footer]
             @ (if sha F then hash_block L name (concat (data_block (unicode L) name (pending src)))
                else [])"
    by (simp add: Embed_plain_ok [OF assms] emitted_def data_block_def lines)
  have 2: "\<forall>c\<in>set (chunks BUF_SIZE (pending src)). c \<noteq> [] \<and> last (join_entries c) = CHR '',''"
    using mem join_entries_last by blast
  have abc: "chunks BUF_SIZE [0x41, 0x42, 0x43 :: byte] = [[0x41, 0x42, 0x43]]"
    by (rule chunks_short) (simp_all add: BUF_SIZE_def)
  have ex: "script all_ok = []" "clean_end (file_of [0x41, 0x42, 0x43])"
    "\<not> compress \<lparr>compress = False, sha = False\<rparr>"
    by (simp_all add: all_ok_def clean_end_def file_of_def)
  have 3: "accepted (out (fst (fst (Embed L \<lparr>compress = False, sha = False\<rparr> all_ok
            (file_of [0x41, 0x42, 0x43]) ''test.txt''))))
         = [[NL] @ ''// test.txt'' @ [NL] @ ''var test_txt = []byte{'' @ [NL],
            [TAB] @ ''0x41, 0x42, 0x43,'' @ [NL],
            ''}'' @ [NL]]"
    unfolding Embed_plain_ok [OF ex]
    by (simp add: emitted_def data_block_def file_of_def all_ok_def abc
          sanitise_test_txt data_header_def footer_def fmt_line_def fmt_byte_def hexdigit_def)
  show ?thesis using 1 2 3 by (simp add: entry_def)
qed

theorem Embed_line_format_witness:
  "script all_ok = [] \<and> clean_end (file_of [0x0A, 0xFF])
   \<and> accepted (out (fst (fst (Embed test_library \<lparr>compress = False, sha = False\<rparr> all_ok
          (file_of [0x0A, 0xFF]) ''b''))))
       = [[NL] @ ''// b'' @ [NL] @ ''var b = []byte{'' @ [NL], [TAB] @ ''0x0a, 0xff,'' @ [NL],
          ''}'' @ [NL]]"
proof -
  have h: "script all_ok = []" "clean_end (file_of [0x0A, 0xFF])"
    "\<not> compress \<lparr>compress = False, sha = False\<rparr>"
    by (simp_all add: all_ok_def clean_end_def file_of_def)
  have ev: "chunks BUF_SIZE [0x0A, 0xFF :: byte] = [[0x0A, 0xFF]]"
    "join_entries [0x0A, 0xFF] = ''0x0a, 0xff,''"
    "sanitise test_tables ''b'' = ''b''"
    by code_simp+
  have "accepted (out (fst (fst (Embed test_library \<lparr>compress = False, sha = False\<rparr> all_ok
          (file_of [0x0A, 0xFF]) ''b''))))
       = accepted all_ok @ [data_header ''b'' (sanitise (unicode test_library) ''b'')]
             @ map (\<lambda>c. [TAB] @ join_entries c @ [NL]) (chunks BUF_SIZE (pending (file_of [0x0A, 0xFF])))
             @ [footer] @ []"
    using Embed_line_format [OF h, of test_library "''b''"] by simp
  then show ?thesis using h
    by (simp add: ev(1,3) file_of_def all_ok_def test_library_def data_header_def footer_def
          entry_def hexdigit_def)
qed


text \<open>
  C1: the digest that \<^verbatim>\<open>Embed\<close> writes is not the SHA1 of the input bytes, nor of
  compressed bytes. The hasher sits on the writer that receives the generated source
  text, so on a writer that does not fail, with \<^verbatim>\<open>-sha1\<close>, the hash block holds the
  digest of the text of the data block (header, lines and closing brace), with and
  without \<^verbatim>\<open>-gzip\<close>. That text is longer than the input, for every input.
\<close>

theorem Embed_digest_covers_text:
  assumes "script dst = []" "clean_end src" "sha F"
  shows "(let text = data_block (unicode L) name (pending src);
              block = [hash_header name (sanitise (unicode L) name)]
                        @ map fmt_line (chunks BUF_SIZE (sha1_Sum L (concat text))) @ [footer]
          in accepted (out (fst (fst (Embed L F dst src name))))
               = accepted dst @ (if compress F then gzip_stream (gzip L) (text @ block)
                                 else text @ block)
             \<and> text = [data_header name (sanitise (unicode L) name)]
                        @ map fmt_line (chunks BUF_SIZE (pending src)) @ [footer]
             \<and> length (pending src) < length (concat text))"
  using assms(3) data_block_longer [of "pending src" "unicode L" name]
  by (simp add: Embed_accepted_ok [OF assms(1,2)] emitted_def hash_block_def Let_def
        data_block_def)

theorem Embed_digest_covers_text_witness:
  "script all_ok = [] \<and> clean_end (file_of [0x41]) \<and> sha \<lparr>compress = False, sha = True\<rparr>
   \<and> accepted (out (fst (fst (Embed test_library \<lparr>compress = False, sha = True\<rparr> all_ok
          (file_of [0x41]) ''a''))))
       = [[NL] @ ''// a'' @ [NL] @ ''var a = []byte{'' @ [NL], [TAB] @ ''0x41,'' @ [NL], ''}'' @ [NL],
          [NL] @ ''// SHA1 hash of a'' @ [NL] @ ''var a_SHA1 = []byte{'' @ [NL]]
         @ map fmt_line (chunks BUF_SIZE (sha1_Sum test_library
              ([NL] @ ''// a'' @ [NL] @ ''var a = []byte{'' @ [NL] @ [TAB] @ ''0x41,'' @ [NL] @ ''}''
                 @ [NL])))
         @ [''}'' @ [NL]]"
proof -
  have h: "script all_ok = []" "clean_end (file_of [0x41])" "sha \<lparr>compress = False, sha = True\<rparr>"
    by (simp_all add: all_ok_def clean_end_def file_of_def)
  have ev: "data_block (unicode test_library) ''a'' (pending (file_of [0x41]))
      = [[NL] @ ''// a'' @ [NL] @ ''var a = []byte{'' @ [NL], [TAB] @ ''0x41,'' @ [NL], ''}'' @ [NL]]"
    "hash_header ''a'' (sanitise (unicode test_library) ''a'')
      = [NL] @ ''// SHA1 hash of a'' @ [NL] @ ''var a_SHA1 = []byte{'' @ [NL]"
    "footer = ''}'' @ [NL]" "accepted all_ok = []"
    by code_simp+
  show ?thesis
    using h Embed_digest_covers_text [OF h, of test_library "''a''", unfolded Let_def ev]
    by simp
qed

text \<open>
  C2: on a writer that does not fail, the lines of the literal read back to the input
  bytes themselves, with and without \<^verbatim>\<open>-gzip\<close>. With \<^verbatim>\<open>-gzip\<close> the literal does not
  hold compressed bytes: the compressor is given the generated source text, and what
  the caller's writer receives is the compressed text.
\<close>

theorem Embed_literal_holds_raw_input:
  assumes "script dst = []" "clean_end src"
  shows "(let lines = map fmt_line (chunks BUF_SIZE (pending src));
              text = [data_header name (sanitise (unicode L) name)] @ lines @ [footer]
                       @ (if sha F then hash_block L name
                            (concat ([data_header name (sanitise (unicode L) name)] @ lines @ [footer]))
                          else [])
          in accepted (out (fst (fst (Embed L F dst src name))))
               = accepted dst @ (if compress F then gzip_stream (gzip L) text else text)
             \<and> map parse_line lines = map Some (chunks BUF_SIZE (pending src))
             \<and> concat (chunks BUF_SIZE (pending src)) = pending src)"
proof -
  have "accepted (out (fst (fst (Embed L F dst src name))))
      = accepted dst @ (if compress F then gzip_stream (gzip L) (emitted L F name (pending src))
                        else emitted L F name (pending src))"
    by (rule Embed_accepted_ok [OF assms])
  then show ?thesis
    unfolding Let_def emitted_def data_block_def
    using parse_fmt_lines [of "pending src"] chunks_concat [OF BUF_SIZE_pos, of "pending src"]
    by (intro conjI) simp_all
qed

theorem Embed_literal_holds_raw_input_witness:
  "script all_ok = [] \<and> clean_end (file_of [0x41])
   \<and> accepted (out (fst (fst (Embed test_library \<lparr>compress = True, sha = False\<rparr> all_ok
          (file_of [0x41]) ''a''))))
       = gzip_stream test_compressor
           [[NL] @ ''// a'' @ [NL] @ ''var a = []byte{'' @ [NL], [TAB] @ ''0x41,'' @ [NL], ''}'' @ [NL]]
   \<and> gzip_stream test_compressor
           [[NL] @ ''// a'' @ [NL] @ ''var a = []byte{'' @ [NL], [TAB] @ ''0x41,'' @ [NL], ''}'' @ [NL]]
       = [''GZ'' @ [NL] @ ''// a'' @ [NL] @ ''var a = []byte{'' @ [NL] @ [TAB] @ ''0x41,'' @ [NL] @ ''}''
            @ [NL]]
   \<and> parse_line ([TAB] @ ''0x41,'' @ [NL]) = Some [0x41]"
proof -
  have h: "script all_ok = []" "clean_end (file_of [0x41])"
    by (simp_all add: all_ok_def clean_end_def file_of_def)
  have ev: "map fmt_line (chunks BUF_SIZE (pending (file_of [0x41]))) = [[TAB] @ ''0x41,'' @ [NL]]"
    "data_header ''a'' (sanitise (unicode test_library) ''a'')
      = [NL] @ ''// a'' @ [NL] @ ''var a = []byte{'' @ [NL]"
    "footer = ''}'' @ [NL]" "accepted all_ok = []"
    by code_simp+
  have lib: "gzip test_library = test_compressor" by (simp add: test_library_def)
  have g: "gzip_stream test_compressor
           [[NL] @ ''// a'' @ [NL] @ ''var a = []byte{'' @ [NL], [TAB] @ ''0x41,'' @ [NL], ''}'' @ [NL]]
       = [''GZ'' @ [NL] @ ''// a'' @ [NL] @ ''var a = []byte{'' @ [NL] @ [TAB] @ ''0x41,'' @ [NL] @ ''}''
            @ [NL]]"
    "parse_line ([TAB] @ ''0x41,'' @ [NL]) = Some [0x41]"
    by code_simp+
  have "accepted (out (fst (fst (Embed test_library \<lparr>compress = True, sha = False\<rparr> all_ok
          (file_of [0x41]) ''a''))))
       = gzip_stream test_compressor
           [[NL] @ ''// a'' @ [NL] @ ''var a = []byte{'' @ [NL], [TAB] @ ''0x41,'' @ [NL], ''}'' @ [NL]]"
    using Embed_literal_holds_raw_input [OF h, where L = test_library and name = "''a''"
          and F = "\<lparr>compress = True, sha = False\<rparr>", unfolded Let_def ev lib]
    by simp
  then show ?thesis using h g by simp
qed

text \<open>
  C8, as the code contradicts it: after a write to the caller's writer has failed,
  \<^verbatim>\<open>Close\<close> is called once but finalizes nothing. When the first write fails, the gzip
  writer keeps the error; \<^verbatim>\<open>Close\<close> returns that error, writes nothing (the closing
  bytes \<^verbatim>\<open>END\<close> of the compressor never reach the writer) and leaves the gzip writer
  not closed.
\<close>

theorem Embed_counterexample_close_after_write_error:
  "(let res = Embed stream_library \<lparr>compress = True, sha = False\<rparr>
                (all_ok\<lparr>script := [Fail 0 (IOError 7)]\<rparr>) (file_of [0x41]) ''a'';
        w' = fst (fst res)
    in snd res = Some (IOError 7)
       \<and> closes_of w' = Some 1
       \<and> zclosed_of w' = Some False
       \<and> accepted (out w') = [[]]
       \<and> zclose (gzip stream_library) () = [''END'']
       \<and> ''END'' \<notin> set (accepted (out w')))"
  by code_simp


text \<open>
  C8, as amended: with \<^verbatim>\<open>-gzip\<close>, whatever the writer and the reader do, the body
  never closes the gzip writer and \<^verbatim>\<open>Close\<close> is called exactly once when \<^verbatim>\<open>Embed\<close>
  returns. The error returned is the error of the body when it has one and the error of
  \<^verbatim>\<open>Close\<close> otherwise. When no write to the caller's writer has failed in the body,
  \<^verbatim>\<open>Close\<close> closes the gzip writer and writes the closing bytes of the compressor to
  the caller's writer; this is so on a writer that never fails, both on success, where
  the writer has then received the whole compressed stream, and when the reader fails,
  where the reader's error is returned. When a write has failed in the body, the gzip
  writer holds that error, which is the error returned; \<^verbatim>\<open>Close\<close> writes nothing and
  the gzip writer stays not closed.
\<close>

theorem Embed_close_on_exit:
  assumes "compress F"
  shows "(let wc = \<lparr>zstate = zinit (gzip L), zerr = None, zclosed = False, closes = 0\<rparr>;
              body = Embed_body L F \<lparr>out = dst, gz = Some wc, hasher = None\<rparr> src name;
              w = fst (fst body); err = snd body;
              res = Embed L F dst src name; w' = fst (fst res)
          in closes_of w = Some 0 \<and> closes_of w' = Some 1
             \<and> snd res = (case err of Some e \<Rightarrow> Some e | None \<Rightarrow> snd (wc_Close L w))
             \<and> (case gz w of
                  None \<Rightarrow> False
                | Some g \<Rightarrow>
                    \<not> zclosed g
                    \<and> (zerr g = None \<longrightarrow>
                         (out w', snd (wc_Close L w))
                           = write_all (out w) (zclose (gzip L) (zstate g))
                         \<and> zclosed_of w' = Some True)
                    \<and> (zerr g \<noteq> None \<longrightarrow>
                         err = zerr g \<and> snd res = zerr g \<and> out w' = out w
                         \<and> zclosed_of w' = Some False)
                    \<and> (script dst = [] \<longrightarrow>
                         zerr g = None
                         \<and> err = (if clean_end src then None else Some (final src))
                         \<and> snd res = err
                         \<and> accepted (out w') = accepted (out w) @ zclose (gzip L) (zstate g)))
             \<and> (script dst = [] \<and> clean_end src \<longrightarrow>
                  accepted (out w')
                    = accepted dst @ gzip_stream (gzip L) (emitted L F name (pending src))))"
proof -
  define wc :: "'a gzip_writer"
    where "wc = \<lparr>zstate = zinit (gzip L), zerr = None, zclosed = False, closes = 0\<rparr>"
  define w0 :: "'a chain" where "w0 = \<lparr>out = dst, gz = Some wc, hasher = None\<rparr>"
  obtain w src' err where body: "Embed_body L F w0 src name = ((w, src'), err)"
    by (metis prod.exhaust)
  obtain w' e where cl: "wc_Close L w = (w', e)" by fastforce
  have E: "Embed L F dst src name
      = ((w', src'), case err of Some e \<Rightarrow> Some e | None \<Rightarrow> e)"
    using assms body cl by (cases err; cases e) (simp_all add: Embed_def Let_def flip: wc_def w0_def)
  have l0: "live w0" by (simp add: live_def w0_def wc_def)
  have "gz_after w0 w err" by (rule Embed_body_gz [OF l0 body])
  then obtain g where g: "gz w = Some g" "\<not> zclosed g" "closes g = 0"
      "zerr g = None \<or> zerr g = err"
    by (auto simp: gz_after_def w0_def wc_def split: option.splits)
  have c0: "closes_of w = Some 0" using g by (simp add: closes_of_def)
  have c1: "closes_of w' = Some 1"
    using wc_Close_closes [OF g(1), of L] cl g(3) by simp
  have flush: "(out w', e) = write_all (out w) (zclose (gzip L) (zstate g))
               \<and> zclosed_of w' = Some True" if "zerr g = None"
    using cl g that
    by (auto simp: wc_Close_def gzip_Close_def Let_def zclosed_of_def split: prod.splits)
  have stuck: "err = zerr g \<and> (case err of Some e \<Rightarrow> Some e | None \<Rightarrow> e) = zerr g
               \<and> out w' = out w \<and> zclosed_of w' = Some False" if "zerr g \<noteq> None"
    using cl g that
    by (auto simp: wc_Close_def gzip_Close_def Let_def zclosed_of_def split: prod.splits)
  have quiet: "zerr g = None
               \<and> err = (if clean_end src then None else Some (final src))
               \<and> (case err of Some e \<Rightarrow> Some e | None \<Rightarrow> e) = err
               \<and> accepted (out w') = accepted (out w) @ zclose (gzip L) (zstate g)"
    if s: "script dst = []"
  proof -
    have ok0: "ok_chain w0" using s by (simp add: ok_chain_def w0_def wc_def)
    have h0: "hasher w0 = None" by (simp add: w0_def)
    have okw: "ok_chain w"
    proof (cases "clean_end src")
      case True
      show ?thesis
        using Embed_body_ok [OF ok0 True h0, of L F name] body feed_ok [OF _, of _ L]
          ok0 by (auto simp: ok_chain_def)
    next
      case False
      show ?thesis using Embed_body_dirty_chain [OF ok0 False, of L F name] body by simp
    qed
    have err: "err = (if clean_end src then None else Some (final src))"
    proof (cases "clean_end src")
      case True
      then show ?thesis using Embed_body_ok [OF ok0 True h0, of L F name] body by simp
    next
      case False
      then show ?thesis using Embed_body_dirty [OF ok0 False, of L F name] body by simp
    qed
    have z: "zerr g = None" "script (out w) = []" using okw g(1) by (simp_all add: ok_chain_def)
    have wa: "write_all (out w) (zclose (gzip L) (zstate g))
        = ((out w)\<lparr>accepted := accepted (out w) @ zclose (gzip L) (zstate g)\<rparr>, None)"
      by (rule write_all_ok [OF z(2)])
    have "out w' = (out w)\<lparr>accepted := accepted (out w) @ zclose (gzip L) (zstate g)\<rparr>" "e = None"
      using flush [OF z(1)] wa by simp_all
    then show ?thesis using z(1) err by simp
  qed
  have full: "accepted (out w')
      = accepted dst @ gzip_stream (gzip L) (emitted L F name (pending src))"
    if "script dst = []" "clean_end src"
    using Embed_gzip_ok [OF that assms, of L name] E by simp
  have inner: "\<not> zclosed g
      \<and> (zerr g = None \<longrightarrow>
            (out w', e) = write_all (out w) (zclose (gzip L) (zstate g))
            \<and> zclosed_of w' = Some True)
      \<and> (zerr g \<noteq> None \<longrightarrow>
            err = zerr g \<and> (case err of Some e \<Rightarrow> Some e | None \<Rightarrow> e) = zerr g
            \<and> out w' = out w \<and> zclosed_of w' = Some False)
      \<and> (script dst = [] \<longrightarrow>
            zerr g = None
            \<and> err = (if clean_end src then None else Some (final src))
            \<and> (case err of Some e \<Rightarrow> Some e | None \<Rightarrow> e) = err
            \<and> accepted (out w') = accepted (out w) @ zclose (gzip L) (zstate g))"
    using g(2) flush stuck quiet by blast
  show ?thesis
    unfolding Let_def wc_def [symmetric] w0_def [symmetric] body E cl fst_conv snd_conv
      g(1) option.case
    using c0 c1 inner full by blast
qed

theorem Embed_close_on_exit_witness:
  "compress \<lparr>compress = True, sha = False\<rparr>
   \<and> script all_ok = [] \<and> clean_end (file_of [0x41])
   \<and> accepted (out (fst (fst (Embed stream_library \<lparr>compress = True, sha = False\<rparr>
        all_ok (file_of [0x41]) ''a''))))
       = gzip_stream stream_compressor
           (emitted stream_library \<lparr>compress = True, sha = False\<rparr> ''a'' [0x41])
   \<and> last (accepted (out (fst (fst (Embed stream_library \<lparr>compress = True, sha = False\<rparr>
        all_ok (file_of [0x41]) ''a''))))) = ''END''
   \<and> zclosed_of (fst (fst (Embed stream_library \<lparr>compress = True, sha = False\<rparr>
        all_ok (file_of [0x41]) ''a''))) = Some True
   \<and> snd (Embed stream_library \<lparr>compress = True, sha = False\<rparr>
        all_ok ((file_of [0x41])\<lparr>final := IOError 3\<rparr>) ''a'') = Some (IOError 3)
   \<and> last (accepted (out (fst (fst (Embed stream_library \<lparr>compress = True, sha = False\<rparr>
        all_ok ((file_of [0x41])\<lparr>final := IOError 3\<rparr>) ''a''))))) = ''END''
   \<and> snd (Embed stream_library \<lparr>compress = True, sha = False\<rparr>
        (all_ok\<lparr>script := [Ok, Fail 0 (IOError 7)]\<rparr>) (file_of [0x41]) ''a'') = Some (IOError 7)
   \<and> zclosed_of (fst (fst (Embed stream_library \<lparr>compress = True, sha = False\<rparr>
        (all_ok\<lparr>script := [Ok, Fail 0 (IOError 7)]\<rparr>) (file_of [0x41]) ''a''))) = Some False"
proof -
  let ?F = "\<lparr>compress = True, sha = False\<rparr>"
  let ?wc = "\<lparr>zstate = zinit (gzip stream_library), zerr = None, zclosed = False, closes = 0\<rparr>"
  have c: "compress ?F" by simp
  have s: "script all_ok = []" "clean_end (file_of [0x41])"
    "\<not> clean_end ((file_of [0x41])\<lparr>final := IOError 3\<rparr>)"
    "final ((file_of [0x41])\<lparr>final := IOError 3\<rparr>) = IOError 3"
    by (simp_all add: all_ok_def clean_end_def file_of_def)
  have g: "gzip stream_library = stream_compressor" by (simp add: stream_library_def)
  have ev: "zclose stream_compressor () = [''END'']"
    "gz (fst (fst (Embed_body stream_library ?F \<lparr>out = all_ok, gz = Some ?wc, hasher = None\<rparr>
        (file_of [0x41]) ''a'')))
       = Some \<lparr>zstate = (), zerr = None, zclosed = False, closes = 0\<rparr>"
    "gz (fst (fst (Embed_body stream_library ?F \<lparr>out = all_ok, gz = Some ?wc, hasher = None\<rparr>
        ((file_of [0x41])\<lparr>final := IOError 3\<rparr>) ''a'')))
       = Some \<lparr>zstate = (), zerr = None, zclosed = False, closes = 0\<rparr>"
    "gz (fst (fst (Embed_body stream_library ?F
        \<lparr>out = all_ok\<lparr>script := [Ok, Fail 0 (IOError 7)]\<rparr>, gz = Some ?wc, hasher = None\<rparr>
        (file_of [0x41]) ''a'')))
       = Some \<lparr>zstate = (), zerr = Some (IOError 7), zclosed = False, closes = 0\<rparr>"
    by code_simp+
  note ok = Embed_close_on_exit [OF c, of stream_library all_ok "file_of [0x41]" "''a''",
      unfolded Let_def ev(2) option.case]
  note rd = Embed_close_on_exit [OF c, of stream_library all_ok
      "(file_of [0x41])\<lparr>final := IOError 3\<rparr>" "''a''", unfolded Let_def ev(3) option.case]
  note wr = Embed_close_on_exit [OF c, of stream_library
      "all_ok\<lparr>script := [Ok, Fail 0 (IOError 7)]\<rparr>" "file_of [0x41]" "''a''",
      unfolded Let_def ev(4) option.case]
  note ok_in = ok [THEN conjunct2, THEN conjunct2, THEN conjunct2, THEN conjunct1]
  note ok_full = ok [THEN conjunct2, THEN conjunct2, THEN conjunct2, THEN conjunct2]
  note rd_in = rd [THEN conjunct2, THEN conjunct2, THEN conjunct2, THEN conjunct1]
  note wr_in = wr [THEN conjunct2, THEN conjunct2, THEN conjunct2, THEN conjunct1]
  have a: "accepted all_ok = []" "pending (file_of [0x41]) = [0x41]"
    by (simp_all add: all_ok_def file_of_def)
  have 1: "accepted (out (fst (fst (Embed stream_library ?F all_ok (file_of [0x41]) ''a''))))
       = gzip_stream stream_compressor (emitted stream_library ?F ''a'' [0x41])"
    using ok_full s(1,2) by (simp only: g a append_Nil simp_thms)
  have 2: "last (accepted (out (fst (fst (Embed stream_library ?F all_ok (file_of [0x41]) ''a'')))))
       = ''END''"
    "zclosed_of (fst (fst (Embed stream_library ?F all_ok (file_of [0x41]) ''a''))) = Some True"
    using ok_in s(1,2) by (simp_all add: g ev(1))
  have 3: "snd (Embed stream_library ?F all_ok ((file_of [0x41])\<lparr>final := IOError 3\<rparr>) ''a'')
       = Some (IOError 3)"
    "last (accepted (out (fst (fst (Embed stream_library ?F all_ok
        ((file_of [0x41])\<lparr>final := IOError 3\<rparr>) ''a''))))) = ''END''"
    using rd_in s(1,3,4) by (simp_all add: g ev(1))
  have 4: "snd (Embed stream_library ?F (all_ok\<lparr>script := [Ok, Fail 0 (IOError 7)]\<rparr>)
        (file_of [0x41]) ''a'') = Some (IOError 7)"
    "zclosed_of (fst (fst (Embed stream_library ?F (all_ok\<lparr>script := [Ok, Fail 0 (IOError 7)]\<rparr>)
        (file_of [0x41]) ''a''))) = Some False"
    using wr_in by simp_all
  show ?thesis using c s(1,2) 1 2 3 4 by simp
qed




end
